theory Spec2Isabelle
  imports Main "HOL-Library.Sublist" "HOL-Library.AList"
begin

text \<open>
  A model of \<^verbatim>\<open>src/index.js\<close> of npm-auditor: the filter that projects a lock tree to
  its canonical fields (\<^verbatim>\<open>filterTree\<close>), the scanner that rebuilds such a tree from
  the installed packages (\<^verbatim>\<open>scanInstalledDependencies\<close>), the choice between the lock
  files and the scanner (\<^verbatim>\<open>getAllDependencies\<close>) and the audit payload
  (\<^verbatim>\<open>getAuditData\<close>).  Exceptions and rejected promises are values \<open>Inl e\<close>; the
  mutable variables of a scan are passed as a state; the mutual recursion of the scanner
  is bounded by fuel, and a result \<open>None\<close> stands for a call that has not returned.
  Paths are POSIX paths.  Sending the payload and rendering the report are not modelled.
\<close>

section \<open>JavaScript values\<close>

text \<open>
  The program (\<^verbatim>\<open>src/index.js\<close>) works on parsed JSON documents and on plain objects it
  builds itself.  A value is modelled by the datatype below.  An object is the list of its
  own enumerable properties in enumeration order (keys are distinct in every object that
  JavaScript can build); \<open>JUndefined\<close> is the value of a missing property.  Numbers only
  matter through their truthiness, so they are integers here.  The members that a plain
  object inherits from \<^verbatim>\<open>Object.prototype\<close> matter where the program reads a property
  whose name is a package name (\<^verbatim>\<open>topLevelDeps[subDep]\<close>, see \<open>truthy_member\<close>); the
  paths that index \<^verbatim>\<open>packageCache\<close> are absolute file names as \<^verbatim>\<open>resolve-from\<close> returns
  them, hence no such names, and \<^verbatim>\<open>__proto__\<close>, which an assignment treats specially, is
  not a package name.
\<close>

datatype jsval =
    JUndefined
  | JNull
  | JBool bool
  | JNum int
  | JStr string
  | JArr "jsval list"
  | JObj "(string \<times> jsval) list"

datatype error =
    TypeError
  | ModuleNotFound string
  | FileError string
  | SyntaxError
  | Error string

fun truthy :: "jsval \<Rightarrow> bool" where
  "truthy JUndefined = False"
| "truthy JNull = False"
| "truthy (JBool b) = b"
| "truthy (JNum n) = (n \<noteq> 0)"
| "truthy (JStr s) = (s \<noteq> [])"
| "truthy (JArr xs) = True"
| "truthy (JObj kvs) = True"

fun nullish :: "jsval \<Rightarrow> bool" where
  "nullish JUndefined = True"
| "nullish JNull = True"
| "nullish v = False"

text \<open>Decimal rendering of an array index, the property name of an array element.\<close>

definition digit_char :: "nat \<Rightarrow> char" where
  "digit_char d = char_of (48 + d)"

fun index_name :: "nat \<Rightarrow> string" where
  "index_name i =
     (let q = i div 10 in
      (if q = 0 then [] else index_name q) @ [digit_char (i mod 10)])"

definition index_keys :: "nat \<Rightarrow> string list" where
  "index_keys n = map index_name [0..<n]"

text \<open>
  The own enumerable properties of a value, as \<^verbatim>\<open>Object.keys\<close> and lodash's
  \<^verbatim>\<open>mapValues\<close> enumerate them: the properties of an object, the indices of an array
  or of a string, nothing for the other primitives.
\<close>

fun js_entries :: "jsval \<Rightarrow> (string \<times> jsval) list" where
  "js_entries (JObj kvs) = kvs"
| "js_entries (JArr xs) = zip (index_keys (length xs)) xs"
| "js_entries (JStr s) = zip (index_keys (length s)) (map (\<lambda>c. JStr [c]) s)"
| "js_entries v = []"

text \<open>
  \<^verbatim>\<open>Object.keys(v)\<close> throws a TypeError on \<^verbatim>\<open>undefined\<close> and \<^verbatim>\<open>null\<close>.
\<close>

definition object_keys :: "jsval \<Rightarrow> error + string list" where
  "object_keys v = (if nullish v then Inl TypeError else Inr (map fst (js_entries v)))"

text \<open>
  Reading the property \<open>k\<close> of a value that is neither \<^verbatim>\<open>undefined\<close> nor \<^verbatim>\<open>null\<close>
  (the callers check \<open>nullish\<close> first, where JavaScript throws).  The names read by the
  program (\<^verbatim>\<open>dependencies\<close>, \<^verbatim>\<open>devDependencies\<close>, \<^verbatim>\<open>version\<close>, \<^verbatim>\<open>_integrity\<close>,
  \<^verbatim>\<open>name\<close>) are not properties of arrays, strings, numbers or booleans.
\<close>

fun js_get :: "jsval \<Rightarrow> string \<Rightarrow> jsval" where
  "js_get (JObj kvs) k = (case map_of kvs k of Some v \<Rightarrow> v | None \<Rightarrow> JUndefined)"
| "js_get v k = JUndefined"

text \<open>
  The members of \<^verbatim>\<open>Object.prototype\<close>, which every object created by \<^verbatim>\<open>{}\<close> inherits.
  All of them are functions or objects, hence truthy.  \<open>truthy_member obj k\<close> is the
  truthiness of \<^verbatim>\<open>obj[k]\<close> for such an object: the own property \<open>k\<close> if there is one,
  the inherited member otherwise.
\<close>

definition OBJECT_PROTOTYPE_MEMBERS :: "string list" where
  "OBJECT_PROTOTYPE_MEMBERS =
     [''constructor'', ''__defineGetter__'', ''__defineSetter__'', ''hasOwnProperty'',
      ''__lookupGetter__'', ''__lookupSetter__'', ''isPrototypeOf'', ''propertyIsEnumerable'',
      ''toString'', ''valueOf'', ''__proto__'', ''toLocaleString'']"

definition truthy_member :: "(string \<times> jsval) list \<Rightarrow> string \<Rightarrow> bool" where
  "truthy_member obj k =
     (case map_of obj k of
        Some v \<Rightarrow> truthy v
      | None \<Rightarrow> k \<in> set OBJECT_PROTOTYPE_MEMBERS)"

text \<open>
  The enumeration order of the own properties of an object: the names that are array
  indices (canonical decimal numerals below 4294967295) first, in ascending numeric order,
  then the other names in the order of their creation.  \<open>array_index k\<close> is the index that
  the name \<open>k\<close> denotes, if any; \<open>key_before k k'\<close> says that a new property \<open>k\<close> is
  enumerated before an existing property \<open>k'\<close>.
\<close>

definition array_index :: "string \<Rightarrow> nat option" where
  "array_index k =
     (if k \<noteq> [] \<and> list_all (\<lambda>c. c \<in> set ''0123456789'') k \<and> (hd k \<noteq> CHR ''0'' \<or> k = ''0'') then
        (let i = foldl (\<lambda>a c. 10 * a + (of_char c - 48)) 0 k in
         if i < 4294967295 then Some i else None)
      else None)"

definition key_before :: "string \<Rightarrow> string \<Rightarrow> bool" where
  "key_before k k' =
     (case array_index k of
        None \<Rightarrow> False
      | Some i \<Rightarrow> (case array_index k' of None \<Rightarrow> True | Some j \<Rightarrow> i < j))"

fun insert_prop :: "(string \<times> jsval) list \<Rightarrow> string \<Rightarrow> jsval \<Rightarrow> (string \<times> jsval) list" where
  "insert_prop [] k v = [(k, v)]"
| "insert_prop (kv # kvs) k v =
     (if key_before k (fst kv) then (k, v) # kv # kvs else kv # insert_prop kvs k v)"

text \<open>
  \<^verbatim>\<open>obj[k] = v\<close>: an existing property keeps its place and gets the new value, a new
  property takes its place in the enumeration order.
\<close>

definition set_prop :: "(string \<times> jsval) list \<Rightarrow> string \<Rightarrow> jsval \<Rightarrow> (string \<times> jsval) list" where
  "set_prop kvs k v =
     (if k \<in> fst ` set kvs then AList.update k v kvs else insert_prop kvs k v)"

text \<open>
  lodash \<^verbatim>\<open>pick(object, paths)\<close>: a new object with those of the named properties that
  the object has, in the order of \<open>paths\<close>.
\<close>

fun pick :: "jsval \<Rightarrow> string list \<Rightarrow> (string \<times> jsval) list" where
  "pick (JObj kvs) paths =
     List.map_filter (\<lambda>p. map_option (Pair p) (map_of kvs p)) paths"
| "pick v paths = []"

declare pick.simps [simp del]

text \<open>
  lodash \<^verbatim>\<open>mapValues(object, iteratee)\<close> with an iteratee that may throw: the first
  exception aborts the traversal.
\<close>

primrec mapValuesE ::
  "(jsval \<Rightarrow> error + jsval) \<Rightarrow> (string \<times> jsval) list \<Rightarrow> error + (string \<times> jsval) list" where
  "mapValuesE f [] = Inr []"
| "mapValuesE f (kv # rest) =
     (case f (snd kv) of
        Inl e \<Rightarrow> Inl e
      | Inr r \<Rightarrow>
          (case mapValuesE f rest of
             Inl e \<Rightarrow> Inl e
           | Inr rs \<Rightarrow> Inr ((fst kv, r) # rs)))"

text \<open>\<^verbatim>\<open>Object.assign(target, ...sources)\<close>; \<^verbatim>\<open>undefined\<close> and \<^verbatim>\<open>null\<close> sources are skipped.\<close>

definition object_assign :: "(string \<times> jsval) list \<Rightarrow> jsval list \<Rightarrow> (string \<times> jsval) list" where
  "object_assign target sources =
     fold (\<lambda>src t. fold (\<lambda>kv t'. set_prop t' (fst kv) (snd kv)) (js_entries src) t) sources target"

text \<open>Sequencing of computations that may throw.\<close>

definition and_then :: "error + 'a \<Rightarrow> ('a \<Rightarrow> error + 'b) \<Rightarrow> error + 'b" where
  "and_then r f = (case r of Inl e \<Rightarrow> Inl e | Inr x \<Rightarrow> f x)"

section \<open>Strings and paths\<close>

text \<open>\<^verbatim>\<open>s.indexOf(sub)\<close>: the first position where \<open>sub\<close> occurs in \<open>s\<close>, or \<open>-1\<close>.\<close>

fun indexOf_from :: "string \<Rightarrow> string \<Rightarrow> nat \<Rightarrow> int" where
  "indexOf_from [] sub i = (if sub = [] then int i else - 1)"
| "indexOf_from (c # cs) sub i =
     (if prefix sub (c # cs) then int i else indexOf_from cs sub (Suc i))"

definition indexOf :: "string \<Rightarrow> string \<Rightarrow> int" where
  "indexOf s sub = indexOf_from s sub 0"

text \<open>
  Node's POSIX \<^verbatim>\<open>path.dirname\<close>.  \<open>dirname_end p i matchedSlash\<close> is its loop
  \<^verbatim>\<open>for (i = path.length - 1; i >= 1; --i)\<close>, which looks for the last slash that is
  followed by a character other than a slash.
\<close>

fun dirname_end :: "string \<Rightarrow> nat \<Rightarrow> bool \<Rightarrow> nat option" where
  "dirname_end p 0 matchedSlash = None"
| "dirname_end p (Suc i) matchedSlash =
     (if p ! Suc i = CHR ''/'' then
        (if \<not> matchedSlash then Some (Suc i) else dirname_end p i matchedSlash)
      else dirname_end p i False)"

definition path_dirname :: "string \<Rightarrow> string" where
  "path_dirname p =
     (if p = [] then ''.''
      else
        let hasRoot = (hd p = CHR ''/'') in
        case dirname_end p (length p - 1) True of
          None \<Rightarrow> (if hasRoot then ''/'' else ''.'')
        | Some e \<Rightarrow> (if hasRoot \<and> e = 1 then ''//'' else take e p))"

text \<open>
  \<^verbatim>\<open>path.resolve(name)\<close> and \<^verbatim>\<open>path.join(dir, name)\<close> for the arguments the program
  gives them: a plain file name below the working directory (absolute and normalised, as
  \<^verbatim>\<open>process.cwd()\<close> returns it), respectively below a normalised directory.
\<close>

definition path_join :: "string \<Rightarrow> string \<Rightarrow> string" where
  "path_join dir name = (if dir = ''/'' then dir @ name else dir @ ''/'' @ name)"

definition path_resolve :: "string \<Rightarrow> string \<Rightarrow> string" where
  "path_resolve cwd name = path_join cwd name"

section \<open>The host\<close>

text \<open>
  What the program reads from its environment: the working directory, the file system
  (\<^verbatim>\<open>fs.readFile\<close>), \<^verbatim>\<open>JSON.parse\<close>, the installed manifests (the
  \<^verbatim>\<open>package.json\<close> files on disk, each with its path and its parsed content), the module
  resolution of \<^verbatim>\<open>resolve-from\<close> and the result of \<^verbatim>\<open>getMetadata()\<close>.  \<open>None\<close> is a
  failure (the callback's error, a thrown exception).
\<close>

record host =
  cwd :: string
  readFile :: "string \<Rightarrow> string option"
  jsonParse :: "string \<Rightarrow> jsval option"
  manifests :: "(string \<times> jsval) list"
  resolveFrom :: "string \<Rightarrow> string \<Rightarrow> string option"
  metadata :: jsval

text \<open>\<^verbatim>\<open>require(path)\<close> of a manifest; it throws when there is no such file.\<close>

definition requireJson :: "host \<Rightarrow> string \<Rightarrow> jsval option" where
  "requireJson h path = map_of (manifests h) path"

section \<open>The lock tree filter\<close>

definition LOCKED_DEPENDENCIES_REQUIRED_PROPERTIES :: "string list" where
  "LOCKED_DEPENDENCIES_REQUIRED_PROPERTIES = [''version'', ''dev'', ''requires'', ''integrity'']"

definition LOCKED_DEPENDENCIES_REQUIRED_PROPERTIES_WITH_DEPS :: "string list" where
  "LOCKED_DEPENDENCIES_REQUIRED_PROPERTIES_WITH_DEPS =
     LOCKED_DEPENDENCIES_REQUIRED_PROPERTIES @ [''dependencies'']"

lemma mapValuesE_cong [fundef_cong]:
  "xs = ys \<Longrightarrow> (\<And>v. v \<in> snd ` set ys \<Longrightarrow> f v = g v) \<Longrightarrow> mapValuesE f xs = mapValuesE g ys"
  by (induction ys arbitrary: xs) (auto split: sum.splits)

lemma size_map_of:
  "map_of kvs k = Some v \<Longrightarrow> size v < Suc (size_list (size_prod (\<lambda>_. 0) size) kvs)"
  by (induction kvs) (auto split: if_splits)

lemma size_js_get_truthy: "truthy (js_get v k) \<Longrightarrow> size (js_get v k) < size v"
  by (cases v) (auto split: option.splits dest: size_map_of)

lemma size_snd_set:
  "(k, v) \<in> set kvs \<Longrightarrow> size v < Suc (size_list (size_prod (\<lambda>_. 0) size) kvs)"
  by (induction kvs) auto

lemma size_set_list: "v \<in> set xs \<Longrightarrow> size v < Suc (size_list size xs)"
  by (induction xs) auto

lemma size_js_entries:
  assumes "v \<in> snd ` set (js_entries t)" and "truthy (js_get v k)"
  shows "size (js_get v k) < size t"
proof (cases t)
  case (JObj kvs)
  with assms(1) obtain n where "(n, v) \<in> set kvs" by auto
  then have "size v < size t" using JObj by (simp add: size_snd_set)
  with size_js_get_truthy[OF assms(2)] show ?thesis by simp
next
  case (JArr xs)
  with assms(1) have "v \<in> set xs" by (auto dest: set_zip_rightD)
  then have "size v < size t" using JArr by (simp add: size_set_list)
  with size_js_get_truthy[OF assms(2)] show ?thesis by simp
next
  case (JStr s)
  with assms(1) obtain c where "v = JStr [c]" by (auto dest!: set_zip_rightD)
  with assms(2) show ?thesis by simp
qed (use assms in auto)

text \<open>
  \<^verbatim>\<open>filterTree\<close> (lines 54-63).  The iteratee reads \<^verbatim>\<open>packageInfo.dependencies\<close>, which
  throws when the node is \<^verbatim>\<open>null\<close>.
\<close>

function filterTree :: "jsval \<Rightarrow> error + jsval" where
  "filterTree packageTree =
     (case mapValuesE (\<lambda>packageInfo.
             if nullish packageInfo then Inl TypeError
             else
               let requiredInfo = pick packageInfo LOCKED_DEPENDENCIES_REQUIRED_PROPERTIES in
               if truthy (js_get packageInfo ''dependencies'') then
                 (case filterTree (js_get packageInfo ''dependencies'') of
                    Inl e \<Rightarrow> Inl e
                  | Inr d \<Rightarrow> Inr (JObj (set_prop requiredInfo ''dependencies'' d)))
               else Inr (JObj requiredInfo))
           (js_entries packageTree) of
        Inl e \<Rightarrow> Inl e
      | Inr kvs \<Rightarrow> Inr (JObj kvs))"
  by pat_completeness auto
termination
  by (relation "measure size") (auto simp: size_js_entries)

declare filterTree.simps [simp del]

text \<open>\<^verbatim>\<open>getNpmLockDependencies\<close> (lines 65-68): read, parse, filter the \<^verbatim>\<open>dependencies\<close> field.\<close>

definition getNpmLockDependencies :: "host \<Rightarrow> string \<Rightarrow> error + jsval" where
  "getNpmLockDependencies h lockFileName =
     (case readFile h (path_resolve (cwd h) lockFileName) of
        None \<Rightarrow> Inl (FileError lockFileName)
      | Some lockFileContents \<Rightarrow>
          (case jsonParse h lockFileContents of
             None \<Rightarrow> Inl SyntaxError
           | Some parsed \<Rightarrow>
               if nullish parsed then Inl TypeError
               else filterTree (js_get parsed ''dependencies'')))"

section \<open>The installed-tree scanner\<close>

text \<open>
  The object \<^verbatim>\<open>depPackageInfo\<close> that \<^verbatim>\<open>collectDepPackageInfo\<close> builds (lines 167-180):
  \<^verbatim>\<open>packageDir\<close>, \<^verbatim>\<open>version\<close> and \<^verbatim>\<open>integrity\<close> always, \<^verbatim>\<open>dev\<close>, \<^verbatim>\<open>requires\<close> and
  \<^verbatim>\<open>dependencies\<close> only when set.
\<close>

record pkg_info =
  info_packageDir :: string
  info_version :: jsval
  info_integrity :: jsval
  info_dev :: bool
  info_requires :: "(string \<times> jsval) list option"
  info_dependencies :: "(string \<times> jsval) list option"

definition info_object :: "pkg_info \<Rightarrow> jsval" where
  "info_object i =
     JObj ([(''packageDir'', JStr (info_packageDir i)),
            (''version'', info_version i),
            (''integrity'', info_integrity i)]
           @ (if info_dev i then [(''dev'', JBool True)] else [])
           @ (case info_requires i of Some r \<Rightarrow> [(''requires'', JObj r)] | None \<Rightarrow> [])
           @ (case info_dependencies i of Some d \<Rightarrow> [(''dependencies'', JObj d)] | None \<Rightarrow> []))"

text \<open>\<^verbatim>\<open>pick(subDepInfo, LOCKED_DEPENDENCIES_REQUIRED_PROPERTIES_WITH_DEPS)\<close>.\<close>

definition pick_record :: "pkg_info \<Rightarrow> jsval" where
  "pick_record i = JObj (pick (info_object i) LOCKED_DEPENDENCIES_REQUIRED_PROPERTIES_WITH_DEPS)"

text \<open>
  The mutable variables of one scan: \<^verbatim>\<open>topLevelDeps\<close>, \<^verbatim>\<open>packageCache\<close>, \<^verbatim>\<open>devFlag\<close>.
  \<open>required\<close> is the trace of the manifests that \<^verbatim>\<open>collectDepPackageInfo\<close> loads with
  \<^verbatim>\<open>require\<close>, oldest first.
\<close>

record scan_state =
  topLevelDeps :: "(string \<times> jsval) list"
  packageCache :: "string \<Rightarrow> pkg_info option"
  devFlag :: bool
  required :: "string list"

definition isTopLevelDep :: "string \<Rightarrow> string \<Rightarrow> bool" where
  "isTopLevelDep packageDir depPackageDir \<longleftrightarrow>
     indexOf depPackageDir packageDir < 0 \<or>
     path_dirname depPackageDir = path_join packageDir ''node_modules''"

definition isLocalDep :: "string \<Rightarrow> string \<Rightarrow> bool" where
  "isLocalDep depPackageDir parentPackageDir \<longleftrightarrow> indexOf depPackageDir parentPackageDir = 0"

text \<open>
  The body of the loop of lines 151-161 for one sub-dependency: it updates the parent's
  \<^verbatim>\<open>dependencies\<close> object (first component) or \<^verbatim>\<open>topLevelDeps\<close> (second component).
  \<^verbatim>\<open>topLevelDeps\<close> is created by \<^verbatim>\<open>{}\<close>, so \<^verbatim>\<open>!topLevelDeps[subDep]\<close> is false also for
  a name that it inherits from \<^verbatim>\<open>Object.prototype\<close>.
\<close>

definition placeSubDep ::
  "string \<Rightarrow> string \<Rightarrow> string \<times> pkg_info \<Rightarrow>
   (string \<times> jsval) list \<times> (string \<times> jsval) list \<Rightarrow>
   (string \<times> jsval) list \<times> (string \<times> jsval) list" where
  "placeSubDep packageDir depPackageDir sub acc =
     (let subDep = fst sub; subDepInfo = snd sub;
          dependencies = fst acc; topLevel = snd acc in
      if isLocalDep (info_packageDir subDepInfo) depPackageDir then
        (set_prop dependencies subDep (pick_record subDepInfo), topLevel)
      else if isTopLevelDep packageDir (info_packageDir subDepInfo)
              \<and> \<not> truthy_member topLevel subDep then
        (dependencies, set_prop topLevel subDep (pick_record subDepInfo))
      else if indexOf (info_packageDir subDepInfo) packageDir = 0 then
        (set_prop dependencies subDep (pick_record subDepInfo), topLevel)
      else (dependencies, topLevel))"

text \<open>
  Running a state-passing step over a list, left to right.  \<open>None\<close> is a computation that
  has not returned within its fuel, \<open>Some (Inl e)\<close> a thrown exception.
\<close>

primrec mapS ::
  "('a \<Rightarrow> 's \<Rightarrow> (error + 'b \<times> 's) option) \<Rightarrow> 'a list \<Rightarrow> 's \<Rightarrow> (error + 'b list \<times> 's) option" where
  "mapS f [] st = Some (Inr ([], st))"
| "mapS f (x # xs) st =
     (case f x st of
        None \<Rightarrow> None
      | Some (Inl e) \<Rightarrow> Some (Inl e)
      | Some (Inr (y, st')) \<Rightarrow>
          (case mapS f xs st' of
             None \<Rightarrow> None
           | Some (Inl e) \<Rightarrow> Some (Inl e)
           | Some (Inr (ys, st'')) \<Rightarrow> Some (Inr (y # ys, st''))))"

text \<open>
  \<^verbatim>\<open>getDepPackageInfo\<close> (lines 127-134) and \<^verbatim>\<open>collectDepPackageInfo\<close> (lines 136-183).
  They call each other without bound, so the first argument is fuel: the depth of calls
  still allowed.  \<open>packageDir\<close> is the variable of the enclosing scan.
\<close>

fun getDepPackageInfo ::
  "nat \<Rightarrow> host \<Rightarrow> string \<Rightarrow> string \<Rightarrow> string \<Rightarrow> string \<Rightarrow> scan_state \<Rightarrow>
   (error + pkg_info \<times> scan_state) option"
and collectDepPackageInfo ::
  "nat \<Rightarrow> host \<Rightarrow> string \<Rightarrow> string \<Rightarrow> string \<Rightarrow> scan_state \<Rightarrow>
   (error + pkg_info \<times> scan_state) option" where
  "getDepPackageInfo 0 h packageDir parentPackageDir packageName depsProp st = None"
| "getDepPackageInfo (Suc n) h packageDir parentPackageDir packageName depsProp st =
     (case resolveFrom h parentPackageDir (packageName @ ''/package.json'') of
        None \<Rightarrow> Some (Inl (ModuleNotFound (packageName @ ''/package.json'')))
      | Some depPackageJsonPath \<Rightarrow>
          (case packageCache st depPackageJsonPath of
             Some cached \<Rightarrow> Some (Inr (cached, st))
           | None \<Rightarrow>
               (case collectDepPackageInfo n h packageDir depPackageJsonPath depsProp st of
                  None \<Rightarrow> None
                | Some (Inl e) \<Rightarrow> Some (Inl e)
                | Some (Inr (info, st')) \<Rightarrow>
                    Some (Inr (info,
                      st'\<lparr>packageCache := (packageCache st')(depPackageJsonPath \<mapsto> info)\<rparr>)))))"
| "collectDepPackageInfo 0 h packageDir depPackageJsonPath depsProp st = None"
| "collectDepPackageInfo (Suc n) h packageDir depPackageJsonPath depsProp st =
     (let depPackageDir = path_dirname depPackageJsonPath in
      case requireJson h depPackageJsonPath of
        None \<Rightarrow> Some (Inl (ModuleNotFound depPackageJsonPath))
      | Some depPackageJson \<Rightarrow>
          let st0 = st\<lparr>required := required st @ [depPackageJsonPath]\<rparr> in
          if nullish depPackageJson then Some (Inl TypeError)
          else if truthy (js_get depPackageJson depsProp) then
            (let subDeps = map fst (js_entries (js_get depPackageJson depsProp)) in
             case mapS (\<lambda>dep. getDepPackageInfo n h packageDir depPackageDir dep ''dependencies'')
                    subDeps st0 of
               None \<Rightarrow> None
             | Some (Inl e) \<Rightarrow> Some (Inl e)
             | Some (Inr (infos, st1)) \<Rightarrow>
                 let subDepsInfo = zip subDeps infos;
                     requires = map (\<lambda>kv. (fst kv, info_version (snd kv))) subDepsInfo;
                     placed = fold (placeSubDep packageDir depPackageDir) subDepsInfo
                                ([], topLevelDeps st1);
                     dependencies = fst placed;
                     st2 = st1\<lparr>topLevelDeps := snd placed\<rparr>
                 in Some (Inr
                      (\<lparr>info_packageDir = depPackageDir,
                        info_version = js_get depPackageJson ''version'',
                        info_integrity = js_get depPackageJson ''_integrity'',
                        info_dev = devFlag st2,
                        info_requires = Some requires,
                        info_dependencies = (if dependencies = [] then None else Some dependencies)\<rparr>,
                       st2)))
          else
            Some (Inr
              (\<lparr>info_packageDir = depPackageDir,
                info_version = js_get depPackageJson ''version'',
                info_integrity = js_get depPackageJson ''_integrity'',
                info_dev = devFlag st0,
                info_requires = None,
                info_dependencies = None\<rparr>,
               st0)))"

text \<open>
  \<^verbatim>\<open>Object.keys(o).forEach(dep => getDepPackageInfo(packageDir, dep))\<close> (lines 185 and
  189): the results are discarded, only the state is kept.
\<close>

definition forEachDep ::
  "nat \<Rightarrow> host \<Rightarrow> string \<Rightarrow> jsval \<Rightarrow> scan_state \<Rightarrow> (error + scan_state) option" where
  "forEachDep n h packageDir deps st =
     (case object_keys deps of
        Inl e \<Rightarrow> Some (Inl e)
      | Inr names \<Rightarrow>
          (case mapS (\<lambda>dep. getDepPackageInfo n h packageDir packageDir dep ''dependencies'')
                  names st of
             None \<Rightarrow> None
           | Some (Inl e) \<Rightarrow> Some (Inl e)
           | Some (Inr (infos, st')) \<Rightarrow> Some (Inr st')))"

definition initial_state :: scan_state where
  "initial_state =
     \<lparr>topLevelDeps = [], packageCache = Map.empty, devFlag = False, required = []\<rparr>"

text \<open>
  The body of \<^verbatim>\<open>scanInstalledDependencies\<close> (lines 112-189) with its final state: the
  production dependencies of the project, then \<^verbatim>\<open>devFlag = true\<close>, then its
  development dependencies.
\<close>

definition scan_run :: "nat \<Rightarrow> host \<Rightarrow> (error + scan_state) option" where
  "scan_run n h =
     (let packageJsonPath = path_resolve (cwd h) ''package.json'';
          packageDir = path_dirname packageJsonPath in
      case requireJson h packageJsonPath of
        None \<Rightarrow> Some (Inl (ModuleNotFound packageJsonPath))
      | Some packageJson \<Rightarrow>
          if nullish packageJson then Some (Inl TypeError)
          else
            (case forEachDep n h packageDir (js_get packageJson ''dependencies'') initial_state of
               None \<Rightarrow> None
             | Some (Inl e) \<Rightarrow> Some (Inl e)
             | Some (Inr st1) \<Rightarrow>
                 forEachDep n h packageDir (js_get packageJson ''devDependencies'')
                   (st1\<lparr>devFlag := True\<rparr>)))"

text \<open>\<^verbatim>\<open>scanInstalledDependencies\<close> (lines 111-192) returns \<^verbatim>\<open>topLevelDeps\<close>.\<close>

definition scanInstalledDependencies :: "nat \<Rightarrow> host \<Rightarrow> (error + jsval) option" where
  "scanInstalledDependencies n h =
     (case scan_run n h of
        None \<Rightarrow> None
      | Some (Inl e) \<Rightarrow> Some (Inl e)
      | Some (Inr st) \<Rightarrow> Some (Inr (JObj (topLevelDeps st))))"

section \<open>Choosing the source and building the audit payload\<close>

text \<open>\<^verbatim>\<open>getAllDependencies\<close> (lines 70-77): each \<^verbatim>\<open>.catch\<close> replaces a failure by the next source.\<close>

definition lock_error_message :: string where
  "lock_error_message =
     ''Failed to get locked dependencies from package-lock.json or npm-shrinkwrap.json!''"

definition getAllDependencies :: "nat \<Rightarrow> host \<Rightarrow> (error + jsval) option" where
  "getAllDependencies n h =
     (case getNpmLockDependencies h ''package-lock.json'' of
        Inr t \<Rightarrow> Some (Inr t)
      | Inl e1 \<Rightarrow>
          (case getNpmLockDependencies h ''npm-shrinkwrap.json'' of
             Inr t \<Rightarrow> Some (Inr t)
           | Inl e2 \<Rightarrow>
               (case scanInstalledDependencies n h of
                  None \<Rightarrow> None
                | Some (Inr t) \<Rightarrow> Some (Inr t)
                | Some (Inl e3) \<Rightarrow> Some (Inl (Error lock_error_message)))))"

text \<open>\<^verbatim>\<open>getAuditData\<close> (lines 79-94).\<close>

definition getAuditData :: "nat \<Rightarrow> host \<Rightarrow> (error + jsval) option" where
  "getAuditData n h =
     (let packageJsonPath = path_resolve (cwd h) ''package.json'' in
      case requireJson h packageJsonPath of
        None \<Rightarrow> Some (Inl (ModuleNotFound packageJsonPath))
      | Some packageJson \<Rightarrow>
          (case getAllDependencies n h of
             None \<Rightarrow> None
           | Some (Inl e) \<Rightarrow> Some (Inl e)
           | Some (Inr allDependencies) \<Rightarrow>
               if nullish packageJson then Some (Inl TypeError)
               else Some (Inr (JObj
                 [(''name'', js_get packageJson ''name''),
                  (''version'', js_get packageJson ''version''),
                  (''requires'', JObj (object_assign []
                      [js_get packageJson ''devDependencies'', js_get packageJson ''dependencies''])),
                  (''dependencies'', allDependencies),
                  (''install'', JArr []),
                  (''remove'', JArr []),
                  (''metadata'', metadata h)]))))"

section \<open>Properties of dependency trees and of scans\<close>

text \<open>
  \<open>has_prop v k\<close>: the value has an own property \<open>k\<close>.  \<open>canonical_tree t\<close>: \<open>t\<close> is a
  mapping from names to records, and every record, at every depth of nesting through
  \<^verbatim>\<open>dependencies\<close>, has no field outside \<^verbatim>\<open>version\<close>, \<^verbatim>\<open>dev\<close>, \<^verbatim>\<open>requires\<close>,
  \<^verbatim>\<open>integrity\<close>, \<^verbatim>\<open>dependencies\<close>; \<open>canonical_record\<close> is the same for one record.
  \<open>node_filtered node r\<close> relates a node of a lock tree to its record in the filtered
  tree: the record has a \<^verbatim>\<open>dependencies\<close> field exactly when the node's \<^verbatim>\<open>dependencies\<close>
  value is truthy, and the field is then the filter's output on that value.
\<close>

definition has_prop :: "jsval \<Rightarrow> string \<Rightarrow> bool" where
  "has_prop v k = (k \<in> fst ` set (js_entries v))"

fun canonical_tree :: "jsval \<Rightarrow> bool" where
  "canonical_tree (JObj kvs) =
     (\<forall>(name, r) \<in> set kvs.
        case r of
          JObj fs \<Rightarrow>
            (\<forall>(f, v) \<in> set fs.
               f \<in> set LOCKED_DEPENDENCIES_REQUIRED_PROPERTIES_WITH_DEPS \<and>
               (f = ''dependencies'' \<longrightarrow> canonical_tree v))
        | _ \<Rightarrow> False)"
| "canonical_tree v = False"

definition canonical_record :: "jsval \<Rightarrow> bool" where
  "canonical_record r =
     (case r of
        JObj fs \<Rightarrow>
          (\<forall>(f, v) \<in> set fs.
             f \<in> set LOCKED_DEPENDENCIES_REQUIRED_PROPERTIES_WITH_DEPS \<and>
             (f = ''dependencies'' \<longrightarrow> canonical_tree v))
      | _ \<Rightarrow> False)"

definition node_filtered :: "jsval \<Rightarrow> jsval \<Rightarrow> bool" where
  "node_filtered node r \<longleftrightarrow>
     (has_prop r ''dependencies'' = truthy (js_get node ''dependencies'')) \<and>
     (truthy (js_get node ''dependencies'') \<longrightarrow>
        filterTree (js_get node ''dependencies'') = Inr (js_get r ''dependencies''))"

text \<open>
  \<open>built_info\<close> abbreviates the record that \<^verbatim>\<open>collectDepPackageInfo\<close> returns for the
  manifest \<open>pj\<close> at path \<open>p\<close>.  \<open>scan_extends st st'\<close> says that \<open>st'\<close> is a later state
  of the same scan phase: the phase flag is the same, the trace of loads has only grown,
  every cache entry is kept, every new cache entry carries the phase's marking, and every
  top-level entry is kept.  \<open>info_canonical\<close> and \<open>scan_canonical\<close> say that the records
  held in a resolved package's \<^verbatim>\<open>dependencies\<close>, in the cache and in \<^verbatim>\<open>topLevelDeps\<close>
  are canonical.
\<close>

definition built_info ::
  "string \<Rightarrow> jsval \<Rightarrow> bool \<Rightarrow> (string \<times> jsval) list option \<Rightarrow> (string \<times> jsval) list option \<Rightarrow> pkg_info" where
  "built_info p pj d r ds =
     \<lparr>info_packageDir = path_dirname p,
      info_version = js_get pj ''version'',
      info_integrity = js_get pj ''_integrity'',
      info_dev = d, info_requires = r, info_dependencies = ds\<rparr>"

definition scan_extends :: "scan_state \<Rightarrow> scan_state \<Rightarrow> bool" where
  "scan_extends st st' \<longleftrightarrow>
     devFlag st' = devFlag st \<and>
     prefix (required st) (required st') \<and>
     (\<forall>p i. packageCache st p = Some i \<longrightarrow> packageCache st' p = Some i) \<and>
     (\<forall>p i. packageCache st' p = Some i \<longrightarrow> packageCache st p = Some i \<or> info_dev i = devFlag st) \<and>
     (\<forall>k. truthy (js_get (JObj (topLevelDeps st)) k) \<longrightarrow>
        js_get (JObj (topLevelDeps st')) k = js_get (JObj (topLevelDeps st)) k)"

definition info_canonical :: "pkg_info \<Rightarrow> bool" where
  "info_canonical i =
     (case info_dependencies i of None \<Rightarrow> True | Some d \<Rightarrow> canonical_tree (JObj d))"

definition scan_canonical :: "scan_state \<Rightarrow> bool" where
  "scan_canonical st \<longleftrightarrow>
     canonical_tree (JObj (topLevelDeps st)) \<and>
     (\<forall>p i. packageCache st p = Some i \<longrightarrow> info_canonical i)"

text \<open>
  \<open>dep_edge h p q\<close>: the manifest at path \<open>p\<close> declares a dependency that resolves, from
  the directory of \<open>p\<close>, to the manifest at path \<open>q\<close>.  This is the manifest-to-manifest
  resolution graph of the installed layout.  \<open>scan_loaded X st\<close>: the manifests loaded so
  far are, without repetition, the cached ones and the ones in \<open>X\<close> (those whose resolution
  is still running), and none of the latter is cached.
\<close>

definition dep_edge :: "host \<Rightarrow> string \<Rightarrow> string \<Rightarrow> bool" where
  "dep_edge h p q =
     (case requireJson h p of
        None \<Rightarrow> False
      | Some packageJson \<Rightarrow>
          \<not> nullish packageJson \<and> truthy (js_get packageJson ''dependencies'') \<and>
          (\<exists>dep \<in> set (map fst (js_entries (js_get packageJson ''dependencies''))).
             resolveFrom h (path_dirname p) (dep @ ''/package.json'') = Some q))"

definition scan_loaded :: "string set \<Rightarrow> scan_state \<Rightarrow> bool" where
  "scan_loaded X st \<longleftrightarrow>
     distinct (required st) \<and>
     set (required st) = dom (packageCache st) \<union> X \<and>
     X \<inter> dom (packageCache st) = {}"

text \<open>
  \<open>nested_record r name\<close>: the record stored under \<open>name\<close> in the \<^verbatim>\<open>dependencies\<close> field
  of the tree record \<open>r\<close>, if any.  \<open>scan_provenance h st\<close>: every record of the tree
  is the projection (\<open>pick_record\<close>) of the cached record of a manifest path that its
  name resolves to, for a record under the \<^verbatim>\<open>dependencies\<close> of the package at \<open>p\<close> from the
  directory of \<open>p\<close>.  \<open>cache_dirs st\<close>: the directory in a cached record is the directory
  of the manifest it is cached for.
\<close>

definition nested_record :: "jsval \<Rightarrow> string \<Rightarrow> jsval option" where
  "nested_record r name = map_of (js_entries (js_get r ''dependencies'')) name"

definition scan_provenance :: "host \<Rightarrow> scan_state \<Rightarrow> bool" where
  "scan_provenance h st \<longleftrightarrow>
     (\<forall>p i name r. packageCache st p = Some i \<and> nested_record (pick_record i) name = Some r \<longrightarrow>
        (\<exists>q child. resolveFrom h (path_dirname p) (name @ ''/package.json'') = Some q
           \<and> packageCache st q = Some child \<and> r = pick_record child))
     \<and> (\<forall>name r. map_of (topLevelDeps st) name = Some r \<longrightarrow>
        (\<exists>dir q child. resolveFrom h dir (name @ ''/package.json'') = Some q
           \<and> packageCache st q = Some child \<and> r = pick_record child))"

definition cache_dirs :: "scan_state \<Rightarrow> bool" where
  "cache_dirs st \<longleftrightarrow> (\<forall>q i. packageCache st q = Some i \<longrightarrow> info_packageDir i = path_dirname q)"

section \<open>Example layouts\<close>

text \<open>
  In all examples but one, every package is installed directly under
  \<^verbatim>\<open>/proj/node_modules\<close>, so a module identifier resolves to the same path from every
  directory.
\<close>

definition hoisted_resolve :: "string \<Rightarrow> string \<Rightarrow> string option" where
  "hoisted_resolve dir moduleId = Some (''/proj/node_modules/'' @ moduleId)"

text \<open>
  A project whose manifest declares the one production dependency \<^verbatim>\<open>left-pad\<close>, without
  and with an (empty) \<^verbatim>\<open>devDependencies\<close> field.
\<close>

definition left_pad_files :: "(string \<times> jsval) list" where
  "left_pad_files =
     [(''/proj/package.json'',
         JObj [(''name'', JStr ''proj''), (''version'', JStr ''0.1.0''),
               (''dependencies'', JObj [(''left-pad'', JStr ''^1.0.0'')])]),
      (''/proj/node_modules/left-pad/package.json'',
         JObj [(''name'', JStr ''left-pad''), (''version'', JStr ''1.3.0''),
               (''_integrity'', JStr ''sha1-abc'')])]"

definition left_pad_host :: host where
  "left_pad_host =
     \<lparr>cwd = ''/proj'', readFile = (\<lambda>p. None), jsonParse = (\<lambda>s. None),
      manifests = left_pad_files, resolveFrom = hoisted_resolve,
      metadata = JObj []\<rparr>"

definition left_pad_files_dev :: "(string \<times> jsval) list" where
  "left_pad_files_dev =
     [(''/proj/package.json'',
         JObj [(''name'', JStr ''proj''), (''version'', JStr ''0.1.0''),
               (''dependencies'', JObj [(''left-pad'', JStr ''^1.0.0'')]),
               (''devDependencies'', JObj [])]),
      (''/proj/node_modules/left-pad/package.json'',
         JObj [(''name'', JStr ''left-pad''), (''version'', JStr ''1.3.0''),
               (''_integrity'', JStr ''sha1-abc'')])]"

definition left_pad_host_dev :: host where
  "left_pad_host_dev = left_pad_host\<lparr>manifests := left_pad_files_dev\<rparr>"

definition left_pad_tree :: jsval where
  "left_pad_tree =
     JObj [(''left-pad'', JObj [(''version'', JStr ''1.3.0''), (''integrity'', JStr ''sha1-abc'')])]"

text \<open>
  A project that depends on \<^verbatim>\<open>app\<close>; \<^verbatim>\<open>app\<close> depends on \<^verbatim>\<open>a\<close> and \<^verbatim>\<open>b\<close>, which both
  depend on \<^verbatim>\<open>c\<close>.  \<open>diamond_tree\<close> is what the scan returns for it.
\<close>

definition diamond_files :: "(string \<times> jsval) list" where
  "diamond_files =
     [(''/proj/package.json'',
         JObj [(''name'', JStr ''proj''), (''version'', JStr ''0.1.0''),
               (''dependencies'', JObj [(''app'', JStr ''^1.0.0'')]),
               (''devDependencies'', JObj [])]),
      (''/proj/node_modules/app/package.json'',
         JObj [(''version'', JStr ''1.0.0''), (''_integrity'', JStr ''sha1-app''),
               (''dependencies'', JObj [(''a'', JStr ''^1.0.0''), (''b'', JStr ''^1.0.0'')])]),
      (''/proj/node_modules/a/package.json'',
         JObj [(''version'', JStr ''1.1.0''), (''_integrity'', JStr ''sha1-a''),
               (''dependencies'', JObj [(''c'', JStr ''^1.0.0'')])]),
      (''/proj/node_modules/b/package.json'',
         JObj [(''version'', JStr ''1.2.0''), (''_integrity'', JStr ''sha1-b''),
               (''dependencies'', JObj [(''c'', JStr ''^1.0.0'')])]),
      (''/proj/node_modules/c/package.json'',
         JObj [(''version'', JStr ''1.3.0''), (''_integrity'', JStr ''sha1-c'')])]"

definition diamond_host :: host where
  "diamond_host =
     \<lparr>cwd = ''/proj'', readFile = (\<lambda>p. None), jsonParse = (\<lambda>s. None),
      manifests = diamond_files, resolveFrom = hoisted_resolve,
      metadata = JObj []\<rparr>"

definition diamond_tree :: jsval where
  "diamond_tree =
     JObj
       [(''c'', JObj [(''version'', JStr ''1.3.0''), (''integrity'', JStr ''sha1-c'')]),
        (''a'', JObj [(''version'', JStr ''1.1.0''),
                      (''requires'', JObj [(''c'', JStr ''1.3.0'')]),
                      (''integrity'', JStr ''sha1-a'')]),
        (''b'', JObj [(''version'', JStr ''1.2.0''),
                      (''requires'', JObj [(''c'', JStr ''1.3.0'')]),
                      (''integrity'', JStr ''sha1-b''),
                      (''dependencies'', JObj
                         [(''c'', JObj [(''version'', JStr ''1.3.0''),
                                        (''integrity'', JStr ''sha1-c'')])])])]"

text \<open>
  A project that itself declares \<^verbatim>\<open>a\<close> and \<^verbatim>\<open>b\<close>, which both depend on \<^verbatim>\<open>c\<close>; the
  record of a package without dependencies; a state in which \<^verbatim>\<open>c\<close> is already cached.
\<close>

definition shared_c_files :: "(string \<times> jsval) list" where
  "shared_c_files =
     [(''/proj/package.json'',
         JObj [(''name'', JStr ''proj''), (''version'', JStr ''0.1.0''),
               (''dependencies'', JObj [(''a'', JStr ''^1.0.0''), (''b'', JStr ''^1.0.0'')]),
               (''devDependencies'', JObj [])]),
      (''/proj/node_modules/a/package.json'',
         JObj [(''version'', JStr ''1.1.0''), (''_integrity'', JStr ''sha1-a''),
               (''dependencies'', JObj [(''c'', JStr ''^1.0.0'')])]),
      (''/proj/node_modules/b/package.json'',
         JObj [(''version'', JStr ''1.2.0''), (''_integrity'', JStr ''sha1-b''),
               (''dependencies'', JObj [(''c'', JStr ''^1.0.0'')])]),
      (''/proj/node_modules/c/package.json'',
         JObj [(''version'', JStr ''1.3.0''), (''_integrity'', JStr ''sha1-c'')])]"

definition shared_c_host :: host where
  "shared_c_host =
     \<lparr>cwd = ''/proj'', readFile = (\<lambda>p. None), jsonParse = (\<lambda>s. None),
      manifests = shared_c_files, resolveFrom = hoisted_resolve,
      metadata = JObj []\<rparr>"

definition leaf_info :: "string \<Rightarrow> pkg_info" where
  "leaf_info dir =
     \<lparr>info_packageDir = dir, info_version = JStr ''1.3.0'', info_integrity = JStr ''sha1-c'',
      info_dev = False, info_requires = None, info_dependencies = None\<rparr>"

definition leaf_record :: jsval where
  "leaf_record = JObj [(''version'', JStr ''1.3.0''), (''integrity'', JStr ''sha1-c'')]"

definition cached_c :: scan_state where
  "cached_c = initial_state\<lparr>packageCache :=
     [''/proj/node_modules/c/package.json'' \<mapsto> leaf_info ''/proj/node_modules/c'']\<rparr>"

text \<open>
  A project with the production dependency \<^verbatim>\<open>p\<close> and the development dependency
  \<^verbatim>\<open>q\<close>; both depend on \<^verbatim>\<open>d\<close>, and \<^verbatim>\<open>q\<close> also on \<^verbatim>\<open>e\<close>.
\<close>

definition dev_prod_files :: "(string \<times> jsval) list" where
  "dev_prod_files =
     [(''/proj/package.json'',
         JObj [(''name'', JStr ''proj''), (''version'', JStr ''0.1.0''),
               (''dependencies'', JObj [(''p'', JStr ''^1.0.0'')]),
               (''devDependencies'', JObj [(''q'', JStr ''^2.0.0'')])]),
      (''/proj/node_modules/p/package.json'',
         JObj [(''version'', JStr ''1.0.0''), (''_integrity'', JStr ''sha1-p''),
               (''dependencies'', JObj [(''d'', JStr ''^3.0.0'')])]),
      (''/proj/node_modules/q/package.json'',
         JObj [(''version'', JStr ''2.0.0''), (''_integrity'', JStr ''sha1-q''),
               (''dependencies'', JObj [(''d'', JStr ''^3.0.0''), (''e'', JStr ''^4.0.0'')])]),
      (''/proj/node_modules/d/package.json'',
         JObj [(''version'', JStr ''3.0.0''), (''_integrity'', JStr ''sha1-d'')]),
      (''/proj/node_modules/e/package.json'',
         JObj [(''version'', JStr ''4.0.0''), (''_integrity'', JStr ''sha1-e'')])]"

definition dev_prod_host :: host where
  "dev_prod_host =
     \<lparr>cwd = ''/proj'', readFile = (\<lambda>p. None), jsonParse = (\<lambda>s. None),
      manifests = dev_prod_files, resolveFrom = hoisted_resolve,
      metadata = JObj []\<rparr>"

text \<open>
  Projects with lock files: a fallback lock file with a \<^verbatim>\<open>null\<close> node, a well-formed
  fallback lock file, and a primary lock file next to a manifest that names \<^verbatim>\<open>lodash\<close>
  both as a production and as a development dependency.
\<close>

definition null_node_text :: string where
  "null_node_text = ''{ \"dependencies\": { \"a\": null } }''"

definition project_manifest_only :: "(string \<times> jsval) list" where
  "project_manifest_only =
     [(''/proj/package.json'',
         JObj [(''name'', JStr ''proj''), (''version'', JStr ''0.1.0''),
               (''dependencies'', JObj []), (''devDependencies'', JObj [])])]"

definition null_node_host :: host where
  "null_node_host =
     \<lparr>cwd = ''/proj'',
      readFile = (\<lambda>p. if p = ''/proj/npm-shrinkwrap.json'' then Some null_node_text else None),
      jsonParse = (\<lambda>s. if s = null_node_text
                         then Some (JObj [(''dependencies'', JObj [(''a'', JNull)])]) else None),
      manifests = project_manifest_only, resolveFrom = hoisted_resolve,
      metadata = JObj []\<rparr>"

definition fallback_text :: string where
  "fallback_text = ''{ \"dependencies\": { \"left-pad\": { \"version\": \"1.3.0\", \"resolved\": \"https://registry.npmjs.org/left-pad/-/left-pad-1.3.0.tgz\", \"integrity\": \"sha1-abc\" } } }''"

definition fallback_json :: jsval where
  "fallback_json =
     JObj [(''dependencies'', JObj [(''left-pad'',
        JObj [(''version'', JStr ''1.3.0''),
              (''resolved'', JStr ''https://registry.npmjs.org/left-pad/-/left-pad-1.3.0.tgz''),
              (''integrity'', JStr ''sha1-abc'')])])]"

definition fallback_host :: host where
  "fallback_host =
     \<lparr>cwd = ''/proj'',
      readFile = (\<lambda>p. if p = ''/proj/npm-shrinkwrap.json'' then Some fallback_text else None),
      jsonParse = (\<lambda>s. if s = fallback_text then Some fallback_json else None),
      manifests = left_pad_files, resolveFrom = hoisted_resolve,
      metadata = JObj []\<rparr>"

definition audit_text :: string where
  "audit_text = ''{ \"dependencies\": { \"lodash\": { \"version\": \"4.17.21\" } } }''"

definition audit_files :: "(string \<times> jsval) list" where
  "audit_files =
     [(''/proj/package.json'',
         JObj [(''name'', JStr ''proj''), (''version'', JStr ''0.1.0''),
               (''dependencies'', JObj [(''lodash'', JStr ''^4.17.0'')]),
               (''devDependencies'', JObj [(''lodash'', JStr ''^3.0.0''), (''mocha'', JStr ''^5.0.0'')])])]"

definition audit_host :: host where
  "audit_host =
     \<lparr>cwd = ''/proj'',
      readFile = (\<lambda>p. if p = ''/proj/package-lock.json'' then Some audit_text else None),
      jsonParse = (\<lambda>s. if s = audit_text
         then Some (JObj [(''dependencies'', JObj [(''lodash'', JObj [(''version'', JStr ''4.17.21'')])])])
         else None),
      manifests = audit_files, resolveFrom = hoisted_resolve,
      metadata = JObj [(''node_version'', JStr ''v10.0.0'')]\<rparr>"

text \<open>
  A layout in which every package is installed in the \<^verbatim>\<open>node_modules\<close> directory of the
  package that depends on it: the project depends on \<^verbatim>\<open>a\<close>, which depends on \<^verbatim>\<open>c\<close>.  The
  manifests of \<^verbatim>\<open>a\<close> and \<^verbatim>\<open>b\<close> of the examples above, and a state in which \<^verbatim>\<open>c\<close> is
  cached and present at top level.
\<close>

definition nested_resolve :: "string \<Rightarrow> string \<Rightarrow> string option" where
  "nested_resolve dir moduleId = Some (dir @ ''/node_modules/'' @ moduleId)"

definition nested_files :: "(string \<times> jsval) list" where
  "nested_files =
     [(''/proj/package.json'',
         JObj [(''name'', JStr ''proj''), (''version'', JStr ''0.1.0''),
               (''dependencies'', JObj [(''a'', JStr ''^1.0.0'')]),
               (''devDependencies'', JObj [])]),
      (''/proj/node_modules/a/package.json'',
         JObj [(''version'', JStr ''1.1.0''), (''_integrity'', JStr ''sha1-a''),
               (''dependencies'', JObj [(''c'', JStr ''^1.0.0'')])]),
      (''/proj/node_modules/a/node_modules/c/package.json'',
         JObj [(''version'', JStr ''1.3.0''), (''_integrity'', JStr ''sha1-c'')])]"

definition nested_host :: host where
  "nested_host =
     \<lparr>cwd = ''/proj'', readFile = (\<lambda>p. None), jsonParse = (\<lambda>s. None),
      manifests = nested_files, resolveFrom = nested_resolve,
      metadata = JObj []\<rparr>"

definition manifest_a :: jsval where
  "manifest_a =
     JObj [(''version'', JStr ''1.1.0''), (''_integrity'', JStr ''sha1-a''),
           (''dependencies'', JObj [(''c'', JStr ''^1.0.0'')])]"

definition manifest_b :: jsval where
  "manifest_b =
     JObj [(''version'', JStr ''1.2.0''), (''_integrity'', JStr ''sha1-b''),
           (''dependencies'', JObj [(''c'', JStr ''^1.0.0'')])]"

definition claimed_c :: scan_state where
  "claimed_c = cached_c\<lparr>topLevelDeps := [(''c'', leaf_record)]\<rparr>"

text \<open>A project with both lock files, which hold different trees.\<close>

definition lodash_json :: jsval where
  "lodash_json = JObj [(''dependencies'', JObj [(''lodash'', JObj [(''version'', JStr ''4.17.21'')])])]"

definition lodash_tree :: jsval where
  "lodash_tree = JObj [(''lodash'', JObj [(''version'', JStr ''4.17.21'')])]"

definition both_locks_host :: host where
  "both_locks_host =
     \<lparr>cwd = ''/proj'',
      readFile = (\<lambda>p. if p = ''/proj/package-lock.json'' then Some audit_text
                       else if p = ''/proj/npm-shrinkwrap.json'' then Some fallback_text else None),
      jsonParse = (\<lambda>s. if s = audit_text then Some lodash_json
                        else if s = fallback_text then Some fallback_json else None),
      manifests = left_pad_files_dev, resolveFrom = hoisted_resolve,
      metadata = JObj []\<rparr>"

section \<open>The lock tree filter: proofs\<close>

lemma map_of_pick:
  "map_of (pick (JObj kvs) ps) p = (if p \<in> set ps then map_of kvs p else None)"
  by (induction ps) (auto simp: pick.simps split: option.splits)

lemma pick_cong_map_of:
  "(\<And>p. p \<in> set ps \<Longrightarrow> map_of kvs p = map_of kvs' p) \<Longrightarrow> pick (JObj kvs) ps = pick (JObj kvs') ps"
  by (induction ps) (auto simp: pick.simps split: option.splits)

lemma pick_empty: "pick (JObj []) ps = []"
  by (induction ps) (simp_all add: pick.simps)

lemma pick_pick: "pick (JObj (pick v ps)) ps = pick v ps"
proof (cases v)
  case (JObj kvs)
  have "pick (JObj (pick (JObj kvs) ps)) ps = pick (JObj kvs) ps"
    by (rule pick_cong_map_of) (simp add: map_of_pick)
  then show ?thesis using JObj by simp
qed (simp_all add: pick_empty pick.simps(2-))

lemma map_of_insert_prop:
  "k \<notin> fst ` set al \<Longrightarrow> map_of (insert_prop al k x) = (map_of al)(k \<mapsto> x)"
  by (induction al) (auto simp: fun_upd_twist)

lemma set_insert_prop: "set (insert_prop al k x) = insert (k, x) (set al)"
  by (induction al) auto

lemma map_of_set_prop: "map_of (set_prop al k x) = (map_of al)(k \<mapsto> x)"
  by (simp add: set_prop_def update_conv' map_of_insert_prop)

lemma distinct_insert_prop:
  "k \<notin> fst ` set al \<Longrightarrow> distinct (map fst al) \<Longrightarrow> distinct (map fst (insert_prop al k x))"
  by (induction al) (auto simp: set_insert_prop)

lemma distinct_set_prop: "distinct (map fst al) \<Longrightarrow> distinct (map fst (set_prop al k x))"
  by (simp add: set_prop_def distinct_update distinct_insert_prop)

lemma js_get_set_prop: "js_get (JObj (set_prop al k x)) k' = (if k' = k then x else js_get (JObj al) k')"
  by (simp add: map_of_set_prop)

lemma pick_set_prop_other:
  "k \<notin> set ps \<Longrightarrow> pick (JObj (set_prop kvs k x)) ps = pick (JObj kvs) ps"
  by (rule pick_cong_map_of) (auto simp: map_of_set_prop)

lemma fst_pick_obj: "fst ` set (pick (JObj kvs) ps) \<subseteq> set ps"
  by (induction ps) (auto simp: pick.simps split: option.splits)

lemma fst_pick: "fst ` set (pick v ps) \<subseteq> set ps"
  using fst_pick_obj by (cases v) (simp_all add: pick.simps)

lemma pick_mem:
  "(f, v) \<in> set (pick (JObj kvs) ps) \<Longrightarrow> f \<in> set ps \<and> map_of kvs f = Some v"
  by (induction ps) (auto simp: pick.simps split: option.splits)

lemma js_get_set_prop_same: "js_get (JObj (set_prop kvs k x)) k = x"
  by (simp add: map_of_set_prop)

lemma js_get_pick_notin: "k \<notin> set ps \<Longrightarrow> js_get (JObj (pick v ps)) k = JUndefined"
  by (cases v) (simp_all add: map_of_pick pick.simps(2-))

lemma has_prop_obj: "has_prop (JObj al) k \<longleftrightarrow> k \<in> fst ` set al"
  by (simp add: has_prop_def)

lemma not_has_prop_not_truthy: "\<not> has_prop (JObj al) k \<Longrightarrow> \<not> truthy (js_get (JObj al) k)"
  by (auto simp: has_prop_def map_of_eq_None_iff[symmetric] simp del: map_of_eq_None_iff split: option.splits)

lemma has_prop_set_prop: "has_prop (JObj (set_prop al k x)) k"
proof -
  have "map_of (set_prop al k x) k = Some x" by (simp add: map_of_set_prop)
  then have "(k, x) \<in> set (set_prop al k x)" by (rule map_of_SomeD)
  then show ?thesis by (force simp: has_prop_def)
qed

lemma not_has_prop_pick: "k \<notin> set ps \<Longrightarrow> \<not> has_prop (JObj (pick v ps)) k"
  using fst_pick[of v ps] by (auto simp: has_prop_def)

lemma set_set_prop:
  "(f, v) \<in> set (set_prop al k x) \<Longrightarrow> (f = k \<and> v = x) \<or> (f, v) \<in> set al"
proof (cases "k \<in> fst ` set al")
  case True
  assume "(f, v) \<in> set (set_prop al k x)"
  with True have "(f, v) \<in> set (AList.update k x al)" by (simp add: set_prop_def)
  then show ?thesis by (induction al) (auto split: if_splits)
next
  case False
  assume "(f, v) \<in> set (set_prop al k x)"
  with False show ?thesis by (simp add: set_prop_def set_insert_prop)
qed

lemma mapValuesE_idem:
  "mapValuesE f kvs = Inr rs \<Longrightarrow>
   (\<And>v r. v \<in> snd ` set kvs \<Longrightarrow> f v = Inr r \<Longrightarrow> g r = Inr r) \<Longrightarrow>
   mapValuesE g rs = Inr rs"
proof (induction kvs arbitrary: rs)
  case Nil
  then show ?case by simp
next
  case (Cons kv kvs)
  then show ?case by (fastforce split: sum.splits)
qed

lemma mapValuesE_set:
  "mapValuesE f xs = Inr ys \<Longrightarrow> r \<in> snd ` set ys \<Longrightarrow> \<exists>v \<in> snd ` set xs. f v = Inr r"
proof (induction xs arbitrary: ys)
  case Nil
  then show ?case by simp
next
  case (Cons a xs)
  from Cons.prems(1) obtain y rs where y: "f (snd a) = Inr y"
    and rs: "mapValuesE f xs = Inr rs" and ys: "ys = (fst a, y) # rs"
    by (auto split: sum.splits)
  show ?case
  proof (cases "r = y")
    case True
    with y show ?thesis by auto
  next
    case False
    with Cons.prems(2) ys have "r \<in> snd ` set rs" by auto
    from Cons.IH[OF rs this] show ?thesis by auto
  qed
qed

lemma mapValuesE_list_all2:
  "mapValuesE f xs = Inr ys \<Longrightarrow>
   list_all2 (\<lambda>i out. fst out = fst i \<and> f (snd i) = Inr (snd out)) xs ys"
  by (induction xs arbitrary: ys) (auto split: sum.splits)

lemma filterTree_result_obj: "filterTree t = Inr r \<Longrightarrow> \<exists>kvs. r = JObj kvs"
  by (subst (asm) filterTree.simps) (auto split: sum.splits)

lemma filterTree_idem: "filterTree t = Inr r \<Longrightarrow> filterTree r = Inr r"
proof (induction t arbitrary: r rule: filterTree.induct)
  case (1 packageTree)
  let ?f = "\<lambda>packageInfo.
             if nullish packageInfo then Inl TypeError
             else
               let requiredInfo = pick packageInfo LOCKED_DEPENDENCIES_REQUIRED_PROPERTIES in
               if truthy (js_get packageInfo ''dependencies'') then
                 (case filterTree (js_get packageInfo ''dependencies'') of
                    Inl e \<Rightarrow> Inl e
                  | Inr d \<Rightarrow> Inr (JObj (set_prop requiredInfo ''dependencies'' d)))
               else Inr (JObj requiredInfo)"
  from "1.prems" obtain kvs where kvs: "mapValuesE ?f (js_entries packageTree) = Inr kvs" and r: "r = JObj kvs"
    by (subst (asm) filterTree.simps) (auto split: sum.splits)
  have step: "?f x = Inr x" if v: "v \<in> snd ` set (js_entries packageTree)" and fv: "?f v = Inr x" for v x
  proof (cases "truthy (js_get v ''dependencies'')")
    case True
    with fv obtain d where d: "filterTree (js_get v ''dependencies'') = Inr d"
      and x: "x = JObj (set_prop (pick v LOCKED_DEPENDENCIES_REQUIRED_PROPERTIES) ''dependencies'' d)"
      and nn: "\<not> nullish v"
      by (auto split: if_splits sum.splits simp: Let_def)
    from "1.IH"[OF v nn refl True d] have dd: "filterTree d = Inr d" .
    from filterTree_result_obj[OF d] have td: "truthy d" by auto
    show ?thesis
      unfolding x using dd td
      by (simp add: Let_def js_get_set_prop_same pick_set_prop_other pick_pick
            LOCKED_DEPENDENCIES_REQUIRED_PROPERTIES_def del: js_get.simps)
  next
    case False
    with fv have x: "x = JObj (pick v LOCKED_DEPENDENCIES_REQUIRED_PROPERTIES)"
      by (auto split: if_splits simp: Let_def)
    show ?thesis unfolding x
      by (simp add: Let_def js_get_pick_notin pick_pick LOCKED_DEPENDENCIES_REQUIRED_PROPERTIES_def del: js_get.simps)
  qed
  have "mapValuesE ?f kvs = Inr kvs"
    by (rule mapValuesE_idem[OF kvs]) (rule step)
  then show ?case unfolding r by (subst filterTree.simps) simp
qed

lemma canonical_tree_iff: "canonical_tree (JObj kvs) \<longleftrightarrow> (\<forall>r \<in> snd ` set kvs. canonical_record r)"
  by (auto simp: canonical_record_def)

lemma canonical_record_pick:
  "canonical_record (JObj (pick v LOCKED_DEPENDENCIES_REQUIRED_PROPERTIES))"
  using fst_pick[of v LOCKED_DEPENDENCIES_REQUIRED_PROPERTIES]
  by (fastforce simp: canonical_record_def LOCKED_DEPENDENCIES_REQUIRED_PROPERTIES_WITH_DEPS_def
        LOCKED_DEPENDENCIES_REQUIRED_PROPERTIES_def)

lemma canonical_record_pick_deps:
  assumes "canonical_tree d"
  shows "canonical_record (JObj (set_prop (pick v LOCKED_DEPENDENCIES_REQUIRED_PROPERTIES) ''dependencies'' d))"
  unfolding canonical_record_def
proof (clarsimp, intro conjI impI)
  fix f x
  assume m: "(f, x) \<in> set (set_prop (pick v LOCKED_DEPENDENCIES_REQUIRED_PROPERTIES) ''dependencies'' d)"
  from set_set_prop[OF m] fst_pick[of v LOCKED_DEPENDENCIES_REQUIRED_PROPERTIES]
  show "f \<in> set LOCKED_DEPENDENCIES_REQUIRED_PROPERTIES_WITH_DEPS"
    by (force simp: LOCKED_DEPENDENCIES_REQUIRED_PROPERTIES_WITH_DEPS_def)
  assume "f = ''dependencies''"
  with set_set_prop[OF m] fst_pick[of v LOCKED_DEPENDENCIES_REQUIRED_PROPERTIES]
  show "canonical_tree x" using assms
    by (force simp: LOCKED_DEPENDENCIES_REQUIRED_PROPERTIES_def)
qed

lemma filterTree_canonical: "filterTree t = Inr r \<Longrightarrow> canonical_tree r"
proof (induction t arbitrary: r rule: filterTree.induct)
  case (1 packageTree)
  let ?f = "\<lambda>packageInfo.
             if nullish packageInfo then Inl TypeError
             else
               let requiredInfo = pick packageInfo LOCKED_DEPENDENCIES_REQUIRED_PROPERTIES in
               if truthy (js_get packageInfo ''dependencies'') then
                 (case filterTree (js_get packageInfo ''dependencies'') of
                    Inl e \<Rightarrow> Inl e
                  | Inr d \<Rightarrow> Inr (JObj (set_prop requiredInfo ''dependencies'' d)))
               else Inr (JObj requiredInfo)"
  from "1.prems" obtain kvs where kvs: "mapValuesE ?f (js_entries packageTree) = Inr kvs" and r: "r = JObj kvs"
    by (subst (asm) filterTree.simps) (auto split: sum.splits)
  have "canonical_record x" if "x \<in> snd ` set kvs" for x
  proof -
    from mapValuesE_set[OF kvs that] obtain v where v: "v \<in> snd ` set (js_entries packageTree)"
      and fv: "?f v = Inr x" by blast
    show ?thesis
    proof (cases "truthy (js_get v ''dependencies'')")
      case True
      with fv obtain d where d: "filterTree (js_get v ''dependencies'') = Inr d"
        and x: "x = JObj (set_prop (pick v LOCKED_DEPENDENCIES_REQUIRED_PROPERTIES) ''dependencies'' d)"
        and nn: "\<not> nullish v"
        by (auto split: if_splits sum.splits simp: Let_def)
      from "1.IH"[OF v nn refl True d] show ?thesis unfolding x by (rule canonical_record_pick_deps)
    next
      case False
      with fv have x: "x = JObj (pick v LOCKED_DEPENDENCIES_REQUIRED_PROPERTIES)"
        by (auto split: if_splits simp: Let_def)
      show ?thesis unfolding x by (rule canonical_record_pick)
    qed
  qed
  then show ?case unfolding r canonical_tree_iff by blast
qed

lemma filterTree_nodes:
  assumes "filterTree T = Inr R"
  shows "list_all2 (\<lambda>i out. fst out = fst i \<and> node_filtered (snd i) (snd out)) (js_entries T) (js_entries R)"
proof -
  let ?f = "\<lambda>packageInfo.
             if nullish packageInfo then Inl TypeError
             else
               let requiredInfo = pick packageInfo LOCKED_DEPENDENCIES_REQUIRED_PROPERTIES in
               if truthy (js_get packageInfo ''dependencies'') then
                 (case filterTree (js_get packageInfo ''dependencies'') of
                    Inl e \<Rightarrow> Inl e
                  | Inr d \<Rightarrow> Inr (JObj (set_prop requiredInfo ''dependencies'' d)))
               else Inr (JObj requiredInfo)"
  from assms obtain kvs where kvs: "mapValuesE ?f (js_entries T) = Inr kvs" and r: "R = JObj kvs"
    by (subst (asm) filterTree.simps) (auto split: sum.splits)
  have "node_filtered v x" if "?f v = Inr x" for v x
  proof (cases "truthy (js_get v ''dependencies'')")
    case True
    with that obtain d where d: "filterTree (js_get v ''dependencies'') = Inr d"
      and x: "x = JObj (set_prop (pick v LOCKED_DEPENDENCIES_REQUIRED_PROPERTIES) ''dependencies'' d)"
      by (auto split: if_splits sum.splits simp: Let_def)
    show ?thesis unfolding node_filtered_def x using True d
      by (simp add: has_prop_set_prop js_get_set_prop_same del: js_get.simps)
  next
    case False
    with that have x: "x = JObj (pick v LOCKED_DEPENDENCIES_REQUIRED_PROPERTIES)"
      by (auto split: if_splits simp: Let_def)
    show ?thesis unfolding node_filtered_def x using False
      by (simp add: not_has_prop_pick LOCKED_DEPENDENCIES_REQUIRED_PROPERTIES_def)
  qed
  with mapValuesE_list_all2[OF kvs] show ?thesis
    unfolding r by (auto elim!: list_all2_mono)
qed

lemma getNpmLockDependencies_canonical:
  "getNpmLockDependencies h f = Inr R \<Longrightarrow> canonical_tree R"
  by (auto simp: getNpmLockDependencies_def filterTree_canonical split: option.splits if_splits)

subsection \<open>The claims about the filter\<close>

text \<open>
  C7.  The tree filter is idempotent: for every lock tree \<open>T\<close>, filtering the filter's
  output gives that output again, \<^verbatim>\<open>filter(filter(T)) == filter(T)\<close>.  Where the filter
  throws on \<open>T\<close> (a \<^verbatim>\<open>null\<close> node), both sides are that exception.
\<close>

theorem filterTree_idempotent: "and_then (filterTree T) filterTree = filterTree T"
  by (cases "filterTree T") (simp_all add: and_then_def filterTree_idem)

text \<open>
  C4, as stated, fails: a node whose \<^verbatim>\<open>dependencies\<close> is the empty object keeps a
  \<^verbatim>\<open>dependencies\<close> field in the output, present and empty, although the node has no
  child after filtering.
\<close>

theorem filterTree_keeps_empty_dependencies:
  "filterTree (JObj [(''a'', JObj [(''version'', JStr ''1.0.0''), (''dependencies'', JObj [])])])
     = Inr (JObj [(''a'', JObj [(''version'', JStr ''1.0.0''), (''dependencies'', JObj [])])])
   \<and> has_prop (JObj [(''version'', JStr ''1.0.0''), (''dependencies'', JObj [])]) ''dependencies''
   \<and> js_entries (js_get (JObj [(''version'', JStr ''1.0.0''), (''dependencies'', JObj [])])
         ''dependencies'') = []"
  by (simp add: filterTree.simps pick.simps set_prop_def has_prop_def key_before_def
        array_index_def LOCKED_DEPENDENCIES_REQUIRED_PROPERTIES_def)

text \<open>
  C4, amended.  For every input lock tree on which the filter returns, the output
  contains, at every depth of nesting, only fields from \<^verbatim>\<open>version\<close>, \<^verbatim>\<open>dev\<close>,
  \<^verbatim>\<open>requires\<close>, \<^verbatim>\<open>integrity\<close>, \<^verbatim>\<open>dependencies\<close>; the output has the names of the
  input in the same order; and a node's \<^verbatim>\<open>dependencies\<close> field is present in the output
  if and only if the input node's \<^verbatim>\<open>dependencies\<close> value is truthy, in which case it is
  the filter's output on that value (so it has one entry for each entry of that value, and
  is empty when that value is \<^verbatim>\<open>{}\<close>).
\<close>

theorem filterTree_canonical_shape:
  assumes "filterTree T = Inr R"
  shows "canonical_tree R \<and>
         list_all2 (\<lambda>i out. fst out = fst i \<and> node_filtered (snd i) (snd out))
           (js_entries T) (js_entries R)"
  using filterTree_canonical[OF assms] filterTree_nodes[OF assms] by simp

theorem filterTree_canonical_shape_witness:
  "filterTree (JObj [(''a'', JObj [(''version'', JStr ''1.0.0''), (''resolved'', JStr ''u''),
       (''dependencies'', JObj [(''b'', JObj [(''version'', JStr ''2.0.0''), (''bundled'', JBool True)])])])])
     = Inr (JObj [(''a'', JObj [(''version'', JStr ''1.0.0''),
       (''dependencies'', JObj [(''b'', JObj [(''version'', JStr ''2.0.0'')])])])])
   \<and> canonical_tree (JObj [(''a'', JObj [(''version'', JStr ''1.0.0''),
       (''dependencies'', JObj [(''b'', JObj [(''version'', JStr ''2.0.0'')])])])])
   \<and> list_all2 (\<lambda>i out. fst out = fst i \<and> node_filtered (snd i) (snd out))
       (js_entries (JObj [(''a'', JObj [(''version'', JStr ''1.0.0''), (''resolved'', JStr ''u''),
          (''dependencies'', JObj [(''b'', JObj [(''version'', JStr ''2.0.0''), (''bundled'', JBool True)])])])]))
       (js_entries (JObj [(''a'', JObj [(''version'', JStr ''1.0.0''),
          (''dependencies'', JObj [(''b'', JObj [(''version'', JStr ''2.0.0'')])])])]))"
proof -
  have run: "filterTree (JObj [(''a'', JObj [(''version'', JStr ''1.0.0''), (''resolved'', JStr ''u''),
       (''dependencies'', JObj [(''b'', JObj [(''version'', JStr ''2.0.0''), (''bundled'', JBool True)])])])])
     = Inr (JObj [(''a'', JObj [(''version'', JStr ''1.0.0''),
       (''dependencies'', JObj [(''b'', JObj [(''version'', JStr ''2.0.0'')])])])])"
    by (simp add: filterTree.simps pick.simps set_prop_def key_before_def array_index_def
          LOCKED_DEPENDENCIES_REQUIRED_PROPERTIES_def)
  from filterTree_canonical_shape[OF run] run show ?thesis by blast
qed

section \<open>The scanner: proofs\<close>

subsection \<open>Strings\<close>

lemma indexOf_from_range: "indexOf_from s sub i = - 1 \<or> int i \<le> indexOf_from s sub i"
  by (induction s sub i rule: indexOf_from.induct) auto

lemma indexOf_from_eq: "indexOf_from s sub i = int i \<longleftrightarrow> prefix sub s"
proof (cases s)
  case Nil
  then show ?thesis by auto
next
  case (Cons c cs)
  from indexOf_from_range[of cs sub "Suc i"] show ?thesis unfolding Cons by auto
qed

lemma indexOf_eq_0: "indexOf s sub = 0 \<longleftrightarrow> prefix sub s"
  using indexOf_from_eq[of s sub 0] by (simp add: indexOf_def)

lemma isLocalDep_prefix: "isLocalDep d parent \<longleftrightarrow> prefix parent d"
  by (simp add: isLocalDep_def indexOf_eq_0)

subsection \<open>Successful runs\<close>

lemma mapS_success:
  assumes "mapS f xs st = Some (Inr (ys, st'))" and "I st"
    and "\<And>x s y s'. x \<in> set xs \<Longrightarrow> I s \<Longrightarrow> f x s = Some (Inr (y, s')) \<Longrightarrow> I s' \<and> Q x y"
  shows "I st' \<and> list_all2 Q xs ys"
  using assms
proof (induction xs arbitrary: st ys)
  case Nil
  then show ?case by simp
next
  case (Cons x xs)
  from Cons.prems(1) obtain y s1 ys1 where y: "f x st = Some (Inr (y, s1))"
    and rest: "mapS f xs s1 = Some (Inr (ys1, st'))" and ys: "ys = y # ys1"
    by (auto split: option.splits sum.splits)
  from Cons.prems(3)[OF _ Cons.prems(2) y] have s1: "I s1" and q: "Q x y" by auto
  from Cons.IH[OF rest s1] Cons.prems(3) have "I st' \<and> list_all2 Q xs ys1" by auto
  with q ys show ?case by simp
qed

lemma list_all2_left: "list_all2 (\<lambda>x y. Q x) xs ys \<Longrightarrow> x \<in> set xs \<Longrightarrow> Q x"
  by (induction xs ys rule: list_all2_induct) auto

lemma getDep_Suc_success:
  assumes "getDepPackageInfo (Suc n) h pd dir name dp st = Some (Inr (i, st'))"
  obtains (hit) p where "resolveFrom h dir (name @ ''/package.json'') = Some p"
      and "packageCache st p = Some i" and "st' = st"
  | (miss) p st1 where "resolveFrom h dir (name @ ''/package.json'') = Some p"
      and "packageCache st p = None"
      and "collectDepPackageInfo n h pd p dp st = Some (Inr (i, st1))"
      and "st' = st1\<lparr>packageCache := (packageCache st1)(p \<mapsto> i)\<rparr>"
  using assms by (auto split: option.splits sum.splits)

lemma collect_Suc_success:
  assumes "collectDepPackageInfo (Suc n) h pd p dp st = Some (Inr (i, st'))"
  obtains (leaf) pj where "requireJson h p = Some pj" and "\<not> nullish pj"
      and "\<not> truthy (js_get pj dp)"
      and "st' = st\<lparr>required := required st @ [p]\<rparr>"
      and "i = built_info p pj (devFlag st) None None"
  | (node) pj infos st1 where "requireJson h p = Some pj" and "\<not> nullish pj"
      and "truthy (js_get pj dp)"
      and "mapS (\<lambda>dep. getDepPackageInfo n h pd (path_dirname p) dep ''dependencies'')
             (map fst (js_entries (js_get pj dp))) (st\<lparr>required := required st @ [p]\<rparr>)
           = Some (Inr (infos, st1))"
      and "st' = st1\<lparr>topLevelDeps :=
             snd (fold (placeSubDep pd (path_dirname p))
                    (zip (map fst (js_entries (js_get pj dp))) infos) ([], topLevelDeps st1))\<rparr>"
      and "i = built_info p pj (devFlag st1)
             (Some (map (\<lambda>kv. (fst kv, info_version (snd kv)))
                (zip (map fst (js_entries (js_get pj dp))) infos)))
             (let d = fst (fold (placeSubDep pd (path_dirname p))
                    (zip (map fst (js_entries (js_get pj dp))) infos) ([], topLevelDeps st1))
              in if d = [] then None else Some d)"
  using assms
  by (auto simp: Let_def built_info_def split: option.splits sum.splits if_splits)

lemma forEachDep_success:
  assumes "forEachDep n h pd deps st = Some (Inr st')" and "I st"
    and "\<And>x s y s'. I s \<Longrightarrow> getDepPackageInfo n h pd pd x ''dependencies'' s = Some (Inr (y, s')) \<Longrightarrow> I s'"
  shows "I st'"
proof -
  from assms(1) obtain names infos where
    "mapS (\<lambda>dep. getDepPackageInfo n h pd pd dep ''dependencies'') names st = Some (Inr (infos, st'))"
    by (auto simp: forEachDep_def split: sum.splits option.splits)
  from mapS_success[where I = I and Q = "\<lambda>x y. True", OF this assms(2)] assms(3)
  show ?thesis by blast
qed

lemma scan_run_success:
  assumes "scan_run n h = Some (Inr st)"
  obtains packageJson st1 where
    "requireJson h (path_resolve (cwd h) ''package.json'') = Some packageJson"
    "forEachDep n h (path_dirname (path_resolve (cwd h) ''package.json''))
       (js_get packageJson ''dependencies'') initial_state = Some (Inr st1)"
    "forEachDep n h (path_dirname (path_resolve (cwd h) ''package.json''))
       (js_get packageJson ''devDependencies'') (st1\<lparr>devFlag := True\<rparr>) = Some (Inr st)"
  using assms by (auto simp: scan_run_def Let_def split: option.splits sum.splits if_splits)

subsection \<open>Later states extend earlier ones\<close>

lemma scan_extends_refl: "scan_extends st st"
  by (simp add: scan_extends_def)

lemma scan_extends_trans: "scan_extends a b \<Longrightarrow> scan_extends b c \<Longrightarrow> scan_extends a c"
  unfolding scan_extends_def
  by (intro conjI) (metis prefix_order.order_trans | metis)+

lemma truthy_member_own: "truthy (js_get (JObj topLevel) k) \<Longrightarrow> truthy_member topLevel k"
  by (auto simp: truthy_member_def split: option.splits)

lemma placeSubDep_top_kept:
  "truthy (js_get (JObj topLevel) k) \<Longrightarrow>
   js_get (JObj (snd (placeSubDep pd dir sub (deps, topLevel)))) k = js_get (JObj topLevel) k"
  using truthy_member_own[of topLevel k]
  by (auto simp: placeSubDep_def Let_def js_get_set_prop simp del: js_get.simps)

lemma fold_placeSubDep_top_kept:
  "truthy (js_get (JObj topLevel) k) \<Longrightarrow>
   js_get (JObj (snd (fold (placeSubDep pd dir) subs (deps, topLevel)))) k = js_get (JObj topLevel) k"
proof (induction subs arbitrary: deps topLevel)
  case Nil
  then show ?case by simp
next
  case (Cons sub subs)
  obtain d1 t1 where step: "placeSubDep pd dir sub (deps, topLevel) = (d1, t1)" by (cases "placeSubDep pd dir sub (deps, topLevel)")
  from placeSubDep_top_kept[OF Cons.prems, of pd dir sub deps] step
  have t1: "js_get (JObj t1) k = js_get (JObj topLevel) k" by simp
  with Cons.prems have "truthy (js_get (JObj t1) k)" by simp
  from Cons.IH[OF this, of d1] t1 step show ?case by simp
qed

lemma scan_extends_steps:
  "(\<forall>dir name dp st i st'.
      getDepPackageInfo n h pd dir name dp st = Some (Inr (i, st')) \<longrightarrow>
      scan_extends st st' \<and>
      (\<exists>p. resolveFrom h dir (name @ ''/package.json'') = Some p \<and> packageCache st' p = Some i))
   \<and> (\<forall>p dp st i st'.
      collectDepPackageInfo n h pd p dp st = Some (Inr (i, st')) \<longrightarrow>
      scan_extends st st' \<and> info_dev i = devFlag st)"
proof (induction n)
  case 0
  show ?case by simp
next
  case (Suc n)
  have get: "scan_extends st st' \<and>
      (\<exists>p. resolveFrom h dir (name @ ''/package.json'') = Some p \<and> packageCache st' p = Some i)"
    if run: "getDepPackageInfo (Suc n) h pd dir name dp st = Some (Inr (i, st'))"
    for dir name dp st i st'
    using run
  proof (cases rule: getDep_Suc_success)
    case (hit p)
    then show ?thesis by (auto simp: scan_extends_refl)
  next
    case (miss p st1)
    from Suc.IH miss(3) have e: "scan_extends st st1" and d: "info_dev i = devFlag st" by blast+
    have "scan_extends st st'"
      using e d miss(2) unfolding miss(4) scan_extends_def by auto
    with miss show ?thesis by auto
  qed
  have coll: "scan_extends st st' \<and> info_dev i = devFlag st"
    if run: "collectDepPackageInfo (Suc n) h pd p dp st = Some (Inr (i, st'))"
    for p dp st i st'
    using run
  proof (cases rule: collect_Suc_success)
    case (leaf pj)
    then show ?thesis by (auto simp: scan_extends_def built_info_def)
  next
    case (node pj infos st1)
    have "scan_extends st (st\<lparr>required := required st @ [p]\<rparr>)"
      by (simp add: scan_extends_def)
    from mapS_success[where I = "scan_extends st" and Q = "\<lambda>x y. True", OF node(4) this]
    have e1: "scan_extends st st1"
      using Suc.IH scan_extends_trans by blast
    have "scan_extends st1 st'"
      unfolding node(5) by (simp add: scan_extends_def fold_placeSubDep_top_kept del: js_get.simps)
    with e1 have "scan_extends st st'" by (rule scan_extends_trans)
    moreover from e1 have "info_dev i = devFlag st"
      unfolding node(6) by (simp add: built_info_def scan_extends_def)
    ultimately show ?thesis by simp
  qed
  from get coll show ?case by blast
qed

lemma forEachDep_extends:
  assumes "forEachDep n h pd deps st = Some (Inr st')"
  shows "scan_extends st st'"
proof (rule forEachDep_success[where I = "scan_extends st", OF assms scan_extends_refl])
  fix x s y s'
  assume "scan_extends st s"
    and "getDepPackageInfo n h pd pd x ''dependencies'' s = Some (Inr (y, s'))"
  with scan_extends_steps[of n h pd] show "scan_extends st s'"
    using scan_extends_trans by blast
qed

lemma getDep_top_kept:
  assumes "getDepPackageInfo n h pd dir dep dp st = Some (Inr (i, st'))"
    and "truthy (js_get (JObj (topLevelDeps st)) k)"
  shows "js_get (JObj (topLevelDeps st')) k = js_get (JObj (topLevelDeps st)) k"
  using scan_extends_steps[of n h pd] assms unfolding scan_extends_def by blast

lemma getDep_cache_hit:
  "resolveFrom h dir (name @ ''/package.json'') = Some p \<Longrightarrow> packageCache s p = Some info \<Longrightarrow>
   getDepPackageInfo (Suc m) h pd dir name dp s = Some (Inr (info, s))"
  by simp

lemma getDep_cached_after:
  assumes "getDepPackageInfo k h pd dir name dp s1 = Some (Inr (info, s2))"
  shows "(\<exists>p. resolveFrom h dir (name @ ''/package.json'') = Some p \<and> packageCache s2 p = Some info)
       \<and> (\<forall>q j. packageCache s1 q = Some j \<longrightarrow> packageCache s2 q = Some j)"
proof -
  from scan_extends_steps[of k h pd] assms
  have "scan_extends s1 s2"
    and "\<exists>p. resolveFrom h dir (name @ ''/package.json'') = Some p \<and> packageCache s2 p = Some info"
    by blast+
  then show ?thesis unfolding scan_extends_def by blast
qed

lemma has_prop_pick_record_dev: "has_prop (pick_record i) ''dev'' \<longleftrightarrow> info_dev i"
  by (cases "info_requires i"; cases "info_dependencies i")
     (simp_all add: has_prop_def pick_record_def info_object_def pick.simps
        LOCKED_DEPENDENCIES_REQUIRED_PROPERTIES_WITH_DEPS_def
        LOCKED_DEPENDENCIES_REQUIRED_PROPERTIES_def)

lemma pick_leaf: "pick_record (leaf_info dir) = leaf_record"
  by (simp add: pick_record_def leaf_info_def leaf_record_def info_object_def pick.simps
        LOCKED_DEPENDENCIES_REQUIRED_PROPERTIES_WITH_DEPS_def
        LOCKED_DEPENDENCIES_REQUIRED_PROPERTIES_def)

subsection \<open>Records are canonical\<close>

lemma canonical_pick_record: "info_canonical i \<Longrightarrow> canonical_record (pick_record i)"
  unfolding canonical_record_def pick_record_def info_object_def
  by (auto dest!: pick_mem simp: info_canonical_def split: option.splits if_splits)

lemma canonical_tree_set_prop:
  "canonical_tree (JObj al) \<Longrightarrow> canonical_record r \<Longrightarrow> canonical_tree (JObj (set_prop al k r))"
  unfolding canonical_tree_iff by (auto dest: set_set_prop)

lemma placeSubDep_canonical:
  assumes "canonical_tree (JObj deps)" and "canonical_tree (JObj topLevel)" and "info_canonical (snd sub)"
  shows "canonical_tree (JObj (fst (placeSubDep pd dir sub (deps, topLevel))))
       \<and> canonical_tree (JObj (snd (placeSubDep pd dir sub (deps, topLevel))))"
  using assms canonical_pick_record[OF assms(3)]
  by (auto simp: placeSubDep_def Let_def canonical_tree_set_prop simp del: canonical_tree.simps js_get.simps)

lemma fold_placeSubDep_canonical:
  assumes "canonical_tree (JObj deps)" and "canonical_tree (JObj topLevel)"
    and "\<forall>sub \<in> set subs. info_canonical (snd sub)"
  shows "canonical_tree (JObj (fst (fold (placeSubDep pd dir) subs (deps, topLevel))))
       \<and> canonical_tree (JObj (snd (fold (placeSubDep pd dir) subs (deps, topLevel))))"
  using assms
proof (induction subs arbitrary: deps topLevel)
  case Nil
  then show ?case by simp
next
  case (Cons sub subs)
  obtain d1 t1 where step: "placeSubDep pd dir sub (deps, topLevel) = (d1, t1)"
    by (cases "placeSubDep pd dir sub (deps, topLevel)")
  from placeSubDep_canonical[OF Cons.prems(1,2), of sub pd dir] Cons.prems(3) step
  have "canonical_tree (JObj d1)" "canonical_tree (JObj t1)" by auto
  from Cons.IH[OF this] Cons.prems(3) step show ?case by simp
qed

lemma scan_canonical_steps:
  "(\<forall>dir name dp st i st'.
      getDepPackageInfo n h pd dir name dp st = Some (Inr (i, st')) \<longrightarrow> scan_canonical st \<longrightarrow>
      scan_canonical st' \<and> info_canonical i)
   \<and> (\<forall>p dp st i st'.
      collectDepPackageInfo n h pd p dp st = Some (Inr (i, st')) \<longrightarrow> scan_canonical st \<longrightarrow>
      scan_canonical st' \<and> info_canonical i)"
proof (induction n)
  case 0
  show ?case by simp
next
  case (Suc n)
  from Suc.IH have IHget: "\<And>dir name dp s y s'.
      getDepPackageInfo n h pd dir name dp s = Some (Inr (y, s')) \<Longrightarrow> scan_canonical s \<Longrightarrow>
      scan_canonical s' \<and> info_canonical y"
    by blast
  from Suc.IH have IHcoll: "\<And>p dp s y s'.
      collectDepPackageInfo n h pd p dp s = Some (Inr (y, s')) \<Longrightarrow> scan_canonical s \<Longrightarrow>
      scan_canonical s' \<and> info_canonical y"
    by blast
  have get: "scan_canonical st' \<and> info_canonical i"
    if run: "getDepPackageInfo (Suc n) h pd dir name dp st = Some (Inr (i, st'))"
      and inv: "scan_canonical st"
    for dir name dp st i st'
    using run
  proof (cases rule: getDep_Suc_success)
    case (hit p)
    with inv show ?thesis by (auto simp: scan_canonical_def simp del: canonical_tree.simps)
  next
    case (miss p st1)
    from IHcoll[OF miss(3) inv] have "scan_canonical st1" "info_canonical i" by simp_all
    then show ?thesis
      unfolding miss(4) by (auto simp: scan_canonical_def simp del: canonical_tree.simps)
  qed
  have coll: "scan_canonical st' \<and> info_canonical i"
    if run: "collectDepPackageInfo (Suc n) h pd p dp st = Some (Inr (i, st'))"
      and inv: "scan_canonical st"
    for p dp st i st'
    using run
  proof (cases rule: collect_Suc_success)
    case (leaf pj)
    with inv show ?thesis
      by (auto simp: scan_canonical_def built_info_def info_canonical_def
            simp del: canonical_tree.simps)
  next
    case (node pj infos st1)
    let ?subs = "zip (map fst (js_entries (js_get pj dp))) infos"
    have init: "scan_canonical (st\<lparr>required := required st @ [p]\<rparr>)"
      using inv by (simp add: scan_canonical_def)
    have "scan_canonical st1 \<and>
          list_all2 (\<lambda>x y. info_canonical y) (map fst (js_entries (js_get pj dp))) infos"
    proof (rule mapS_success[where I = scan_canonical, OF node(4) init])
      fix x s y s'
      assume "scan_canonical s"
        and "getDepPackageInfo n h pd (path_dirname p) x ''dependencies'' s = Some (Inr (y, s'))"
      with IHget show "scan_canonical s' \<and> info_canonical y" by blast
    qed
    then have c1: "scan_canonical st1"
      and all: "list_all2 (\<lambda>x y. info_canonical y) (map fst (js_entries (js_get pj dp))) infos"
      by simp_all
    from all have subs: "\<forall>sub \<in> set ?subs. info_canonical (snd sub)"
      by (auto simp: list_all2_iff)
    have nil: "canonical_tree (JObj [])" by simp
    from c1 have top: "canonical_tree (JObj (topLevelDeps st1))"
      by (simp only: scan_canonical_def)
    note placed = fold_placeSubDep_canonical[OF nil top subs, of pd "path_dirname p"]
    from placed have f: "canonical_tree (JObj (fst (fold (placeSubDep pd (path_dirname p)) ?subs ([], topLevelDeps st1))))"
      by (rule conjunct1)
    from placed have s: "canonical_tree (JObj (snd (fold (placeSubDep pd (path_dirname p)) ?subs ([], topLevelDeps st1))))"
      by (rule conjunct2)
    from s c1 have "scan_canonical st'"
      unfolding node(5) by (simp add: scan_canonical_def del: canonical_tree.simps)
    moreover from f have "info_canonical i"
      unfolding node(6)
      by (simp add: built_info_def info_canonical_def Let_def del: canonical_tree.simps)
    ultimately show ?thesis by simp
  qed
  from get coll show ?case by blast
qed

lemma scan_run_canonical:
  assumes "scan_run n h = Some (Inr st)"
  shows "scan_canonical st"
  using assms
proof (cases rule: scan_run_success)
  case (1 packageJson st1)
  have "scan_canonical initial_state" by (simp add: scan_canonical_def initial_state_def)
  from forEachDep_success[where I = scan_canonical, OF 1(2) this] scan_canonical_steps
  have "scan_canonical st1" by blast
  then have "scan_canonical (st1\<lparr>devFlag := True\<rparr>)" by (simp add: scan_canonical_def)
  from forEachDep_success[where I = scan_canonical, OF 1(3) this] scan_canonical_steps
  show ?thesis by blast
qed

lemma scanInstalledDependencies_canonical:
  "scanInstalledDependencies n h = Some (Inr R) \<Longrightarrow> canonical_tree R"
  using scan_run_canonical
  by (auto simp: scanInstalledDependencies_def scan_canonical_def split: option.splits sum.splits)

subsection \<open>No manifest is loaded twice\<close>

text \<open>
  A set of uncached paths in which every path has a dependency inside the set cannot be
  resolved: the resolution of one of its members never returns (\<open>trap_steps\<close>).  Hence a
  path whose resolution is running is never requested again in a scan that returns, and
  every load is the first load of its path (\<open>loaded_steps\<close>).
\<close>

lemma trap_steps:
  assumes trap: "\<forall>p\<in>S. \<exists>q\<in>S. dep_edge h p q"
  shows "(\<forall>dir name st i st'.
      getDepPackageInfo n h pd dir name ''dependencies'' st = Some (Inr (i, st')) \<longrightarrow>
      S \<inter> dom (packageCache st) = {} \<longrightarrow>
      (\<forall>q. resolveFrom h dir (name @ ''/package.json'') = Some q \<longrightarrow> q \<notin> S) \<and>
      S \<inter> dom (packageCache st') = {})
   \<and> (\<forall>p st i st'.
      collectDepPackageInfo n h pd p ''dependencies'' st = Some (Inr (i, st')) \<longrightarrow>
      S \<inter> dom (packageCache st) = {} \<longrightarrow>
      p \<notin> S \<and> S \<inter> dom (packageCache st') = {})"
proof (induction n)
  case 0
  show ?case by simp
next
  case (Suc n)
  from Suc.IH have IHget: "\<And>dir name s y s'.
      getDepPackageInfo n h pd dir name ''dependencies'' s = Some (Inr (y, s')) \<Longrightarrow>
      S \<inter> dom (packageCache s) = {} \<Longrightarrow>
      (\<forall>q. resolveFrom h dir (name @ ''/package.json'') = Some q \<longrightarrow> q \<notin> S) \<and>
      S \<inter> dom (packageCache s') = {}"
    by blast
  from Suc.IH have IHcoll: "\<And>p s y s'.
      collectDepPackageInfo n h pd p ''dependencies'' s = Some (Inr (y, s')) \<Longrightarrow>
      S \<inter> dom (packageCache s) = {} \<Longrightarrow> p \<notin> S \<and> S \<inter> dom (packageCache s') = {}"
    by blast
  have get: "(\<forall>q. resolveFrom h dir (name @ ''/package.json'') = Some q \<longrightarrow> q \<notin> S) \<and>
      S \<inter> dom (packageCache st') = {}"
    if run: "getDepPackageInfo (Suc n) h pd dir name ''dependencies'' st = Some (Inr (i, st'))"
      and inv: "S \<inter> dom (packageCache st) = {}"
    for dir name st i st'
    using run
  proof (cases rule: getDep_Suc_success)
    case (hit p)
    with inv show ?thesis by auto
  next
    case (miss p st1)
    from IHcoll[OF miss(3) inv] miss(1) show ?thesis unfolding miss(4) by auto
  qed
  have coll: "p \<notin> S \<and> S \<inter> dom (packageCache st') = {}"
    if run: "collectDepPackageInfo (Suc n) h pd p ''dependencies'' st = Some (Inr (i, st'))"
      and inv: "S \<inter> dom (packageCache st) = {}"
    for p st i st'
    using run
  proof (cases rule: collect_Suc_success)
    case (leaf pj)
    have "p \<notin> S"
    proof
      assume "p \<in> S"
      with trap obtain q where "dep_edge h p q" by blast
      with leaf show False by (simp add: dep_edge_def)
    qed
    with inv leaf show ?thesis by simp
  next
    case (node pj infos st1)
    let ?Q = "\<lambda>x. \<forall>q. resolveFrom h (path_dirname p) (x @ ''/package.json'') = Some q \<longrightarrow> q \<notin> S"
    have init: "S \<inter> dom (packageCache (st\<lparr>required := required st @ [p]\<rparr>)) = {}"
      using inv by simp
    have res: "S \<inter> dom (packageCache st1) = {} \<and>
          list_all2 (\<lambda>x y. ?Q x) (map fst (js_entries (js_get pj ''dependencies''))) infos"
    proof (rule mapS_success[where I = "\<lambda>s. S \<inter> dom (packageCache s) = {}", OF node(4) init])
      fix x s y s'
      assume "S \<inter> dom (packageCache s) = {}"
        and "getDepPackageInfo n h pd (path_dirname p) x ''dependencies'' s = Some (Inr (y, s'))"
      from IHget[OF this(2,1)] show "S \<inter> dom (packageCache s') = {} \<and> ?Q x" by simp
    qed
    have "p \<notin> S"
    proof
      assume "p \<in> S"
      with trap obtain q where q: "q \<in> S" and "dep_edge h p q" by blast
      with node(1) obtain dep where "dep \<in> set (map fst (js_entries (js_get pj ''dependencies'')))"
        and "resolveFrom h (path_dirname p) (dep @ ''/package.json'') = Some q"
        by (auto simp: dep_edge_def)
      with list_all2_left[OF res[THEN conjunct2], of dep] q show False by blast
    qed
    with res show ?thesis unfolding node(5) by simp
  qed
  from get coll show ?case by blast
qed

lemma loaded_steps:
  "(\<forall>X dir name st i st'.
      getDepPackageInfo n h pd dir name ''dependencies'' st = Some (Inr (i, st')) \<longrightarrow>
      scan_loaded X st \<longrightarrow>
      (\<forall>q. resolveFrom h dir (name @ ''/package.json'') = Some q \<longrightarrow>
           (\<forall>x\<in>X. \<exists>y\<in>insert q X. dep_edge h x y)) \<longrightarrow>
      scan_loaded X st')
   \<and> (\<forall>X p st i st'.
      collectDepPackageInfo n h pd p ''dependencies'' st = Some (Inr (i, st')) \<longrightarrow>
      scan_loaded X st \<longrightarrow> packageCache st p = None \<longrightarrow>
      (\<forall>x\<in>X. \<exists>y\<in>insert p X. dep_edge h x y) \<longrightarrow>
      p \<notin> X \<and> scan_loaded (insert p X) st')"
proof (induction n)
  case 0
  show ?case by simp
next
  case (Suc n)
  from Suc.IH have IHget: "\<And>X dir name s y s'.
      getDepPackageInfo n h pd dir name ''dependencies'' s = Some (Inr (y, s')) \<Longrightarrow>
      scan_loaded X s \<Longrightarrow>
      (\<forall>q. resolveFrom h dir (name @ ''/package.json'') = Some q \<longrightarrow>
           (\<forall>x\<in>X. \<exists>y\<in>insert q X. dep_edge h x y)) \<Longrightarrow>
      scan_loaded X s'"
    by blast
  from Suc.IH have IHcoll: "\<And>X p s y s'.
      collectDepPackageInfo n h pd p ''dependencies'' s = Some (Inr (y, s')) \<Longrightarrow>
      scan_loaded X s \<Longrightarrow> packageCache s p = None \<Longrightarrow>
      (\<forall>x\<in>X. \<exists>y\<in>insert p X. dep_edge h x y) \<Longrightarrow>
      p \<notin> X \<and> scan_loaded (insert p X) s'"
    by blast
  have get: "scan_loaded X st'"
    if run: "getDepPackageInfo (Suc n) h pd dir name ''dependencies'' st = Some (Inr (i, st'))"
      and inv: "scan_loaded X st"
      and edges: "\<forall>q. resolveFrom h dir (name @ ''/package.json'') = Some q \<longrightarrow>
           (\<forall>x\<in>X. \<exists>y\<in>insert q X. dep_edge h x y)"
    for X dir name st i st'
    using run
  proof (cases rule: getDep_Suc_success)
    case (hit p)
    with inv show ?thesis by simp
  next
    case (miss p st1)
    from edges miss(1) have "\<forall>x\<in>X. \<exists>y\<in>insert p X. dep_edge h x y" by simp
    from IHcoll[OF miss(3) inv miss(2) this]
    have "p \<notin> X" and "scan_loaded (insert p X) st1" by simp_all
    then show ?thesis unfolding miss(4) scan_loaded_def by auto
  qed
  have coll: "p \<notin> X \<and> scan_loaded (insert p X) st'"
    if run: "collectDepPackageInfo (Suc n) h pd p ''dependencies'' st = Some (Inr (i, st'))"
      and inv: "scan_loaded X st" and fresh: "packageCache st p = None"
      and edges: "\<forall>x\<in>X. \<exists>y\<in>insert p X. dep_edge h x y"
    for X p st i st'
  proof -
    have notin: "p \<notin> X"
    proof
      assume "p \<in> X"
      with edges have "\<forall>x\<in>X. \<exists>y\<in>X. dep_edge h x y" by (simp add: insert_absorb)
      from trap_steps[OF this, of "Suc n" pd] run inv have "p \<notin> X"
        unfolding scan_loaded_def by blast
      with \<open>p \<in> X\<close> show False by simp
    qed
    have init: "scan_loaded (insert p X) (st\<lparr>required := required st @ [p]\<rparr>)"
      using inv fresh notin unfolding scan_loaded_def by auto
    from run have "scan_loaded (insert p X) st'"
    proof (cases rule: collect_Suc_success)
      case (leaf pj)
      with init show ?thesis by simp
    next
      case (node pj infos st1)
      have "scan_loaded (insert p X) st1 \<and>
            list_all2 (\<lambda>x y. True) (map fst (js_entries (js_get pj ''dependencies''))) infos"
      proof (rule mapS_success[where I = "scan_loaded (insert p X)", OF node(4) init])
        fix x s y s'
        assume x: "x \<in> set (map fst (js_entries (js_get pj ''dependencies'')))"
          and s: "scan_loaded (insert p X) s"
          and r: "getDepPackageInfo n h pd (path_dirname p) x ''dependencies'' s = Some (Inr (y, s'))"
        have "\<forall>q. resolveFrom h (path_dirname p) (x @ ''/package.json'') = Some q \<longrightarrow>
                (\<forall>z\<in>insert p X. \<exists>y\<in>insert q (insert p X). dep_edge h z y)"
        proof (intro allI impI ballI)
          fix q z
          assume q: "resolveFrom h (path_dirname p) (x @ ''/package.json'') = Some q"
            and z: "z \<in> insert p X"
          show "\<exists>y\<in>insert q (insert p X). dep_edge h z y"
          proof (cases "z = p")
            case True
            from node(1,2,3) x q have "dep_edge h p q" by (auto simp: dep_edge_def)
            with True show ?thesis by blast
          next
            case False
            with z edges show ?thesis by blast
          qed
        qed
        from IHget[OF r s this] show "scan_loaded (insert p X) s' \<and> True" by simp
      qed
      then show ?thesis unfolding node(5) by (simp add: scan_loaded_def)
    qed
    with notin show ?thesis by simp
  qed
  from get coll show ?case by blast
qed

lemma scan_run_loaded:
  assumes "scan_run n h = Some (Inr st)"
  shows "scan_loaded {} st"
  using assms
proof (cases rule: scan_run_success)
  case (1 packageJson st1)
  let ?pd = "path_dirname (path_resolve (cwd h) ''package.json'')"
  have step: "scan_loaded {} s'"
    if "scan_loaded {} s" and "getDepPackageInfo n h ?pd ?pd x ''dependencies'' s = Some (Inr (y, s'))"
    for x s y s'
    using loaded_steps[of n h ?pd] that by blast
  have "scan_loaded {} initial_state" by (simp add: scan_loaded_def initial_state_def)
  from forEachDep_success[where I = "scan_loaded {}", OF 1(2) this] step
  have "scan_loaded {} st1" by blast
  then have "scan_loaded {} (st1\<lparr>devFlag := True\<rparr>)" by (simp add: scan_loaded_def)
  from forEachDep_success[where I = "scan_loaded {}", OF 1(3) this] step
  show ?thesis by blast
qed

subsection \<open>The classification loop\<close>

text \<open>
  The loop of lines 151-161 touches, for each sub-dependency, only the entry of its own
  name; so when the names are distinct, the entries for a name after the loop are those
  after the one step for that name (\<open>fold_placeSubDep_at\<close>).  Every entry that the loop
  writes is the projection of the record it got for that name (\<open>fold_placeSubDep_from\<close>).
\<close>

lemma nested_record_pick_record:
  "nested_record (pick_record i) name =
     (case info_dependencies i of None \<Rightarrow> None | Some d \<Rightarrow> map_of d name)"
  by (cases "info_requires i"; cases "info_dependencies i")
     (simp_all add: nested_record_def pick_record_def info_object_def pick.simps
        LOCKED_DEPENDENCIES_REQUIRED_PROPERTIES_WITH_DEPS_def
        LOCKED_DEPENDENCIES_REQUIRED_PROPERTIES_def)

lemma nested_record_built_info:
  "nested_record (pick_record (built_info p pj d r (let ds = D in if ds = [] then None else Some ds))) name
     = map_of D name"
  by (simp add: nested_record_pick_record built_info_def Let_def)

lemma placeSubDep_other:
  "fst sub \<noteq> k \<Longrightarrow>
   map_of (fst (placeSubDep pd dir sub (D, T))) k = map_of D k
   \<and> map_of (snd (placeSubDep pd dir sub (D, T))) k = map_of T k"
  by (simp add: placeSubDep_def Let_def map_of_set_prop)

lemma fold_placeSubDep_other:
  "k \<notin> fst ` set subs \<Longrightarrow>
   map_of (fst (fold (placeSubDep pd dir) subs (D, T))) k = map_of D k
   \<and> map_of (snd (fold (placeSubDep pd dir) subs (D, T))) k = map_of T k"
proof (induction subs arbitrary: D T)
  case Nil
  then show ?case by simp
next
  case (Cons sub subs)
  obtain d1 t1 where step: "placeSubDep pd dir sub (D, T) = (d1, t1)"
    by (cases "placeSubDep pd dir sub (D, T)")
  from Cons.prems have ne: "fst sub \<noteq> k" and rest: "k \<notin> fst ` set subs" by auto
  from placeSubDep_other[OF ne, of pd dir D T] step
  have "map_of d1 k = map_of D k" "map_of t1 k = map_of T k" by simp_all
  with Cons.IH[OF rest, of d1 t1] step show ?case by simp
qed

lemma placeSubDep_from:
  "map_of (fst (placeSubDep pd dir sub (D, T))) k = Some r \<Longrightarrow>
     map_of D k = Some r \<or> (k = fst sub \<and> r = pick_record (snd sub))"
  "map_of (snd (placeSubDep pd dir sub (D, T))) k = Some r \<Longrightarrow>
     map_of T k = Some r \<or> (k = fst sub \<and> r = pick_record (snd sub))"
  by (auto simp: placeSubDep_def Let_def map_of_set_prop split: if_splits)

lemma fold_placeSubDep_from:
  "(map_of (fst (fold (placeSubDep pd dir) subs (D, T))) k = Some r \<longrightarrow>
     map_of D k = Some r \<or> (\<exists>i. (k, i) \<in> set subs \<and> r = pick_record i))
   \<and> (map_of (snd (fold (placeSubDep pd dir) subs (D, T))) k = Some r \<longrightarrow>
     map_of T k = Some r \<or> (\<exists>i. (k, i) \<in> set subs \<and> r = pick_record i))"
proof (induction subs arbitrary: D T)
  case Nil
  then show ?case by simp
next
  case (Cons sub subs)
  obtain d1 t1 where step: "placeSubDep pd dir sub (D, T) = (d1, t1)"
    by (cases "placeSubDep pd dir sub (D, T)")
  have d1: "map_of d1 k = Some r \<Longrightarrow> map_of D k = Some r \<or> (k = fst sub \<and> r = pick_record (snd sub))"
    using placeSubDep_from(1)[of pd dir sub D T k r] step by simp
  have t1: "map_of t1 k = Some r \<Longrightarrow> map_of T k = Some r \<or> (k = fst sub \<and> r = pick_record (snd sub))"
    using placeSubDep_from(2)[of pd dir sub D T k r] step by simp
  from Cons.IH[of d1 t1] d1 t1 step show ?case
    by (cases sub) auto
qed

lemma placeSubDep_lookup_cong:
  "map_of D1 k = map_of D k \<Longrightarrow> map_of T1 k = map_of T k \<Longrightarrow>
   map_of (fst (placeSubDep pd dir (k, ci) (D1, T1))) k = map_of (fst (placeSubDep pd dir (k, ci) (D, T))) k
   \<and> map_of (snd (placeSubDep pd dir (k, ci) (D1, T1))) k = map_of (snd (placeSubDep pd dir (k, ci) (D, T))) k"
  by (simp add: placeSubDep_def Let_def map_of_set_prop truthy_member_def)

lemma fold_placeSubDep_at:
  assumes "distinct (map fst subs)" and "(dep, ci) \<in> set subs"
  shows "map_of (fst (fold (placeSubDep pd dir) subs (D, T))) dep
           = map_of (fst (placeSubDep pd dir (dep, ci) (D, T))) dep
       \<and> map_of (snd (fold (placeSubDep pd dir) subs (D, T))) dep
           = map_of (snd (placeSubDep pd dir (dep, ci) (D, T))) dep"
proof -
  from assms(2) obtain pre post where subs: "subs = pre @ (dep, ci) # post"
    by (auto dest: split_list)
  with assms(1) have pre: "dep \<notin> fst ` set pre" and post: "dep \<notin> fst ` set post" by auto
  obtain d1 t1 where f1: "fold (placeSubDep pd dir) pre (D, T) = (d1, t1)"
    by (cases "fold (placeSubDep pd dir) pre (D, T)")
  obtain d2 t2 where f2: "placeSubDep pd dir (dep, ci) (d1, t1) = (d2, t2)"
    by (cases "placeSubDep pd dir (dep, ci) (d1, t1)")
  from fold_placeSubDep_other[OF pre, of pd dir D T] f1
  have 1: "map_of d1 dep = map_of D dep" "map_of t1 dep = map_of T dep" by simp_all
  from placeSubDep_lookup_cong[OF 1, of pd dir ci] f2
  have 2: "map_of d2 dep = map_of (fst (placeSubDep pd dir (dep, ci) (D, T))) dep"
    "map_of t2 dep = map_of (snd (placeSubDep pd dir (dep, ci) (D, T))) dep" by simp_all
  from fold_placeSubDep_other[OF post, of pd dir d2 t2] 2 f1 f2 show ?thesis
    unfolding subs by simp
qed

lemma placeSubDep_top_distinct:
  "distinct (map fst T) \<Longrightarrow> distinct (map fst (snd (placeSubDep pd dir sub (D, T))))"
  by (simp add: placeSubDep_def Let_def distinct_set_prop)

lemma fold_placeSubDep_top_distinct:
  "distinct (map fst T) \<Longrightarrow> distinct (map fst (snd (fold (placeSubDep pd dir) subs (D, T))))"
proof (induction subs arbitrary: D T)
  case Nil
  then show ?case by simp
next
  case (Cons sub subs)
  obtain d1 t1 where step: "placeSubDep pd dir sub (D, T) = (d1, t1)"
    by (cases "placeSubDep pd dir sub (D, T)")
  from placeSubDep_top_distinct[OF Cons.prems, of pd dir sub D] step
  have "distinct (map fst t1)" by simp
  from Cons.IH[OF this, of d1] step show ?case by simp
qed

lemma mapS_getDep_cached:
  "mapS (\<lambda>dep. getDepPackageInfo n h pd dir dep dp) names st = Some (Inr (infos, st1)) \<Longrightarrow>
   scan_extends st st1 \<and>
   list_all2 (\<lambda>dep y. \<exists>q. resolveFrom h dir (dep @ ''/package.json'') = Some q
                \<and> packageCache st1 q = Some y) names infos"
proof (induction names arbitrary: st infos)
  case Nil
  then show ?case by (simp add: scan_extends_refl)
next
  case (Cons x xs)
  from Cons.prems obtain y s1 ys where y: "getDepPackageInfo n h pd dir x dp st = Some (Inr (y, s1))"
    and rest: "mapS (\<lambda>dep. getDepPackageInfo n h pd dir dep dp) xs s1 = Some (Inr (ys, st1))"
    and infos: "infos = y # ys"
    by (auto split: option.splits sum.splits)
  from scan_extends_steps[of n h pd] y obtain q where e: "scan_extends st s1"
    and q: "resolveFrom h dir (x @ ''/package.json'') = Some q" "packageCache s1 q = Some y"
    by blast
  from Cons.IH[OF rest] have e1: "scan_extends s1 st1"
    and all: "list_all2 (\<lambda>dep y. \<exists>q. resolveFrom h dir (dep @ ''/package.json'') = Some q
                \<and> packageCache st1 q = Some y) xs ys" by simp_all
  from e1 q(2) have "packageCache st1 q = Some y" by (simp add: scan_extends_def)
  with q(1) all infos scan_extends_trans[OF e e1] show ?case by auto
qed

lemma zip_all2_mem:
  "list_all2 Q xs ys \<Longrightarrow> (x, y) \<in> set (zip xs ys) \<Longrightarrow> Q x y"
  by (auto simp: list_all2_iff)

lemma zip_all2_left:
  "list_all2 Q xs ys \<Longrightarrow> x \<in> set xs \<Longrightarrow> \<exists>y. (x, y) \<in> set (zip xs ys) \<and> Q x y"
  by (induction xs ys rule: list_all2_induct) auto

lemma js_entries_truthy: "js_entries v \<noteq> [] \<Longrightarrow> truthy v"
  by (cases v) (auto simp: index_keys_def)

lemma top_distinct_steps:
  "(\<forall>dir name dp st i st'.
      getDepPackageInfo n h pd dir name dp st = Some (Inr (i, st')) \<longrightarrow>
      distinct (map fst (topLevelDeps st)) \<longrightarrow> distinct (map fst (topLevelDeps st')))
   \<and> (\<forall>p dp st i st'.
      collectDepPackageInfo n h pd p dp st = Some (Inr (i, st')) \<longrightarrow>
      distinct (map fst (topLevelDeps st)) \<longrightarrow> distinct (map fst (topLevelDeps st')))"
proof (induction n)
  case 0
  show ?case by simp
next
  case (Suc n)
  from Suc.IH have IHget: "\<And>dir name dp s y s'.
      getDepPackageInfo n h pd dir name dp s = Some (Inr (y, s')) \<Longrightarrow>
      distinct (map fst (topLevelDeps s)) \<Longrightarrow> distinct (map fst (topLevelDeps s'))"
    by blast
  from Suc.IH have IHcoll: "\<And>p dp s y s'.
      collectDepPackageInfo n h pd p dp s = Some (Inr (y, s')) \<Longrightarrow>
      distinct (map fst (topLevelDeps s)) \<Longrightarrow> distinct (map fst (topLevelDeps s'))"
    by blast
  have get: "distinct (map fst (topLevelDeps st'))"
    if run: "getDepPackageInfo (Suc n) h pd dir name dp st = Some (Inr (i, st'))"
      and inv: "distinct (map fst (topLevelDeps st))"
    for dir name dp st i st'
    using run
  proof (cases rule: getDep_Suc_success)
    case (hit p)
    with inv show ?thesis by simp
  next
    case (miss p st1)
    from IHcoll[OF miss(3) inv] show ?thesis unfolding miss(4) by simp
  qed
  have coll: "distinct (map fst (topLevelDeps st'))"
    if run: "collectDepPackageInfo (Suc n) h pd p dp st = Some (Inr (i, st'))"
      and inv: "distinct (map fst (topLevelDeps st))"
    for p dp st i st'
    using run
  proof (cases rule: collect_Suc_success)
    case (leaf pj)
    with inv show ?thesis by simp
  next
    case (node pj infos st1)
    have init: "distinct (map fst (topLevelDeps (st\<lparr>required := required st @ [p]\<rparr>)))"
      using inv by simp
    have "distinct (map fst (topLevelDeps st1)) \<and>
          list_all2 (\<lambda>x y. True) (map fst (js_entries (js_get pj dp))) infos"
    proof (rule mapS_success[where I = "\<lambda>s. distinct (map fst (topLevelDeps s))", OF node(4) init])
      fix x s y s'
      assume "distinct (map fst (topLevelDeps s))"
        and "getDepPackageInfo n h pd (path_dirname p) x ''dependencies'' s = Some (Inr (y, s'))"
      from IHget[OF this(2,1)] show "distinct (map fst (topLevelDeps s')) \<and> True" by simp
    qed
    then show ?thesis unfolding node(5) by (simp add: fold_placeSubDep_top_distinct)
  qed
  from get coll show ?case by blast
qed

lemma cache_dirs_steps:
  "(\<forall>dir name dp st i st'.
      getDepPackageInfo n h pd dir name dp st = Some (Inr (i, st')) \<longrightarrow>
      cache_dirs st \<longrightarrow> cache_dirs st')
   \<and> (\<forall>p dp st i st'.
      collectDepPackageInfo n h pd p dp st = Some (Inr (i, st')) \<longrightarrow>
      cache_dirs st \<longrightarrow> cache_dirs st' \<and> info_packageDir i = path_dirname p)"
proof (induction n)
  case 0
  show ?case by simp
next
  case (Suc n)
  from Suc.IH have IHget: "\<And>dir name dp s y s'.
      getDepPackageInfo n h pd dir name dp s = Some (Inr (y, s')) \<Longrightarrow>
      cache_dirs s \<Longrightarrow> cache_dirs s'"
    by blast
  from Suc.IH have IHcoll: "\<And>p dp s y s'.
      collectDepPackageInfo n h pd p dp s = Some (Inr (y, s')) \<Longrightarrow>
      cache_dirs s \<Longrightarrow> cache_dirs s' \<and> info_packageDir y = path_dirname p"
    by blast
  have get: "cache_dirs st'"
    if run: "getDepPackageInfo (Suc n) h pd dir name dp st = Some (Inr (i, st'))"
      and inv: "cache_dirs st"
    for dir name dp st i st'
    using run
  proof (cases rule: getDep_Suc_success)
    case (hit p)
    with inv show ?thesis by simp
  next
    case (miss p st1)
    from IHcoll[OF miss(3) inv] show ?thesis unfolding miss(4) by (simp add: cache_dirs_def)
  qed
  have coll: "cache_dirs st' \<and> info_packageDir i = path_dirname p"
    if run: "collectDepPackageInfo (Suc n) h pd p dp st = Some (Inr (i, st'))"
      and inv: "cache_dirs st"
    for p dp st i st'
    using run
  proof (cases rule: collect_Suc_success)
    case (leaf pj)
    with inv show ?thesis by (simp add: cache_dirs_def built_info_def)
  next
    case (node pj infos st1)
    have init: "cache_dirs (st\<lparr>required := required st @ [p]\<rparr>)"
      using inv by (simp add: cache_dirs_def)
    have "cache_dirs st1 \<and>
          list_all2 (\<lambda>x y. True) (map fst (js_entries (js_get pj dp))) infos"
    proof (rule mapS_success[where I = cache_dirs, OF node(4) init])
      fix x s y s'
      assume "cache_dirs s"
        and "getDepPackageInfo n h pd (path_dirname p) x ''dependencies'' s = Some (Inr (y, s'))"
      from IHget[OF this(2,1)] show "cache_dirs s' \<and> True" by simp
    qed
    then show ?thesis unfolding node(5,6) by (simp add: cache_dirs_def built_info_def)
  qed
  from get coll show ?case by blast
qed

lemma collect_cache_dirs:
  "collectDepPackageInfo n h pd p dp st = Some (Inr (i, st')) \<Longrightarrow> cache_dirs st \<Longrightarrow> cache_dirs st'"
  using cache_dirs_steps[of n h pd] by blast

text \<open>
  A sub-dependency whose name is the name of a member of \<^verbatim>\<open>Object.prototype\<close> never
  gets a top-level entry: \<^verbatim>\<open>!topLevelDeps[subDep]\<close> is false for it.
\<close>

lemma inherited_name_not_promoted:
  "k \<in> set OBJECT_PROTOTYPE_MEMBERS \<Longrightarrow> map_of T k = None \<Longrightarrow>
   map_of (snd (placeSubDep pd dir (k, i) (D, T))) k = None"
  by (simp add: placeSubDep_def Let_def truthy_member_def)

subsection \<open>Records of the tree come from the cache\<close>

lemma scan_provenance_required [simp]:
  "scan_provenance h (st\<lparr>required := r\<rparr>) = scan_provenance h st"
  by (simp add: scan_provenance_def)

lemma scan_provenance_devFlag [simp]:
  "scan_provenance h (st\<lparr>devFlag := d\<rparr>) = scan_provenance h st"
  by (simp add: scan_provenance_def)

lemma scan_provenance_cache:
  assumes inv: "scan_provenance h st1" and fresh: "packageCache st1 p = None"
    and new: "\<forall>name r. nested_record (pick_record i) name = Some r \<longrightarrow>
        (\<exists>q child. resolveFrom h (path_dirname p) (name @ ''/package.json'') = Some q
           \<and> packageCache st1 q = Some child \<and> r = pick_record child)"
  shows "scan_provenance h (st1\<lparr>packageCache := (packageCache st1)(p \<mapsto> i)\<rparr>)"
proof -
  have keep: "((packageCache st1)(p \<mapsto> i)) q = Some child" if "packageCache st1 q = Some child" for q child
    using that fresh by auto
  have nest: "\<exists>q child. resolveFrom h (path_dirname p') (name @ ''/package.json'') = Some q
           \<and> ((packageCache st1)(p \<mapsto> i)) q = Some child \<and> r = pick_record child"
    if c: "((packageCache st1)(p \<mapsto> i)) p' = Some i'" and n: "nested_record (pick_record i') name = Some r"
    for p' i' name r
  proof (cases "p' = p")
    case True
    with c have "i' = i" by simp
    with new n True obtain q child where
      "resolveFrom h (path_dirname p') (name @ ''/package.json'') = Some q"
      "packageCache st1 q = Some child" "r = pick_record child" by blast
    with keep show ?thesis by blast
  next
    case False
    with c have "packageCache st1 p' = Some i'" by simp
    with inv n obtain q child where
      "resolveFrom h (path_dirname p') (name @ ''/package.json'') = Some q"
      "packageCache st1 q = Some child" "r = pick_record child"
      unfolding scan_provenance_def by blast
    with keep show ?thesis by blast
  qed
  have topl: "\<exists>dir q child. resolveFrom h dir (name @ ''/package.json'') = Some q
           \<and> ((packageCache st1)(p \<mapsto> i)) q = Some child \<and> r = pick_record child"
    if "map_of (topLevelDeps st1) name = Some r" for name r
  proof -
    from inv that obtain dir q child where
      "resolveFrom h dir (name @ ''/package.json'') = Some q"
      "packageCache st1 q = Some child" "r = pick_record child"
      unfolding scan_provenance_def by blast
    with keep show ?thesis by blast
  qed
  show ?thesis
    unfolding scan_provenance_def using nest topl by simp
qed

lemma provenance_steps:
  "(\<forall>X dir name st i st'.
      getDepPackageInfo n h pd dir name ''dependencies'' st = Some (Inr (i, st')) \<longrightarrow>
      scan_loaded X st \<longrightarrow>
      (\<forall>q. resolveFrom h dir (name @ ''/package.json'') = Some q \<longrightarrow>
           (\<forall>x\<in>X. \<exists>y\<in>insert q X. dep_edge h x y)) \<longrightarrow>
      scan_provenance h st \<longrightarrow> scan_provenance h st')
   \<and> (\<forall>X p st i st'.
      collectDepPackageInfo n h pd p ''dependencies'' st = Some (Inr (i, st')) \<longrightarrow>
      scan_loaded X st \<longrightarrow> packageCache st p = None \<longrightarrow>
      (\<forall>x\<in>X. \<exists>y\<in>insert p X. dep_edge h x y) \<longrightarrow>
      scan_provenance h st \<longrightarrow>
      scan_provenance h st' \<and> packageCache st' p = None \<and>
      (\<forall>name r. nested_record (pick_record i) name = Some r \<longrightarrow>
        (\<exists>q child. resolveFrom h (path_dirname p) (name @ ''/package.json'') = Some q
           \<and> packageCache st' q = Some child \<and> r = pick_record child)))"
proof (induction n)
  case 0
  show ?case by simp
next
  case (Suc n)
  from Suc.IH have IHget: "\<And>X dir name s y s'.
      getDepPackageInfo n h pd dir name ''dependencies'' s = Some (Inr (y, s')) \<Longrightarrow>
      scan_loaded X s \<Longrightarrow>
      (\<forall>q. resolveFrom h dir (name @ ''/package.json'') = Some q \<longrightarrow>
           (\<forall>x\<in>X. \<exists>y\<in>insert q X. dep_edge h x y)) \<Longrightarrow>
      scan_provenance h s \<Longrightarrow> scan_provenance h s'"
    by blast
  from Suc.IH have IHcoll: "\<And>X p s y s'.
      collectDepPackageInfo n h pd p ''dependencies'' s = Some (Inr (y, s')) \<Longrightarrow>
      scan_loaded X s \<Longrightarrow> packageCache s p = None \<Longrightarrow>
      (\<forall>x\<in>X. \<exists>y\<in>insert p X. dep_edge h x y) \<Longrightarrow>
      scan_provenance h s \<Longrightarrow>
      scan_provenance h s' \<and> packageCache s' p = None \<and>
      (\<forall>name r. nested_record (pick_record y) name = Some r \<longrightarrow>
        (\<exists>q child. resolveFrom h (path_dirname p) (name @ ''/package.json'') = Some q
           \<and> packageCache s' q = Some child \<and> r = pick_record child))"
    by blast
  have get: "scan_provenance h st'"
    if run: "getDepPackageInfo (Suc n) h pd dir name ''dependencies'' st = Some (Inr (i, st'))"
      and inv: "scan_loaded X st"
      and edges: "\<forall>q. resolveFrom h dir (name @ ''/package.json'') = Some q \<longrightarrow>
           (\<forall>x\<in>X. \<exists>y\<in>insert q X. dep_edge h x y)"
      and prov: "scan_provenance h st"
    for X dir name st i st'
    using run
  proof (cases rule: getDep_Suc_success)
    case (hit p)
    with prov show ?thesis by simp
  next
    case (miss p st1)
    from edges miss(1) have "\<forall>x\<in>X. \<exists>y\<in>insert p X. dep_edge h x y" by simp
    from IHcoll[OF miss(3) inv miss(2) this prov]
    have "scan_provenance h st1" "packageCache st1 p = None"
      "\<forall>name r. nested_record (pick_record i) name = Some r \<longrightarrow>
        (\<exists>q child. resolveFrom h (path_dirname p) (name @ ''/package.json'') = Some q
           \<and> packageCache st1 q = Some child \<and> r = pick_record child)"
      by simp_all
    from scan_provenance_cache[OF this] show ?thesis unfolding miss(4) .
  qed
  have coll: "scan_provenance h st' \<and> packageCache st' p = None \<and>
      (\<forall>name r. nested_record (pick_record i) name = Some r \<longrightarrow>
        (\<exists>q child. resolveFrom h (path_dirname p) (name @ ''/package.json'') = Some q
           \<and> packageCache st' q = Some child \<and> r = pick_record child))"
    if run: "collectDepPackageInfo (Suc n) h pd p ''dependencies'' st = Some (Inr (i, st'))"
      and inv: "scan_loaded X st" and fresh: "packageCache st p = None"
      and edges: "\<forall>x\<in>X. \<exists>y\<in>insert p X. dep_edge h x y"
      and prov: "scan_provenance h st"
    for X p st i st'
  proof -
    from loaded_steps[of "Suc n" h pd] run inv fresh edges
    have notin: "p \<notin> X" and loaded: "scan_loaded (insert p X) st'" by blast+
    from loaded have none: "packageCache st' p = None"
      unfolding scan_loaded_def by auto
    have init: "scan_loaded (insert p X) (st\<lparr>required := required st @ [p]\<rparr>)"
      using inv fresh notin unfolding scan_loaded_def by auto
    from run show ?thesis
    proof (cases rule: collect_Suc_success)
      case (leaf pj)
      have "nested_record (pick_record i) name = None" for name
        unfolding leaf(5) by (simp add: nested_record_pick_record built_info_def)
      with prov none show ?thesis unfolding leaf(4) by simp
    next
      case (node pj infos st1)
      let ?names = "map fst (js_entries (js_get pj ''dependencies''))"
      let ?subs = "zip ?names infos"
      let ?placed = "fold (placeSubDep pd (path_dirname p)) ?subs ([], topLevelDeps st1)"
      have "(scan_loaded (insert p X) st1 \<and> scan_provenance h st1) \<and>
            list_all2 (\<lambda>x y. True) ?names infos"
      proof (rule mapS_success[where I = "\<lambda>s. scan_loaded (insert p X) s \<and> scan_provenance h s",
            OF node(4)])
        show "scan_loaded (insert p X) (st\<lparr>required := required st @ [p]\<rparr>)
              \<and> scan_provenance h (st\<lparr>required := required st @ [p]\<rparr>)"
          using init prov by simp
      next
        fix x s y s'
        assume x: "x \<in> set ?names"
          and s: "scan_loaded (insert p X) s \<and> scan_provenance h s"
          and r: "getDepPackageInfo n h pd (path_dirname p) x ''dependencies'' s = Some (Inr (y, s'))"
        have e: "\<forall>q. resolveFrom h (path_dirname p) (x @ ''/package.json'') = Some q \<longrightarrow>
                (\<forall>z\<in>insert p X. \<exists>y\<in>insert q (insert p X). dep_edge h z y)"
        proof (intro allI impI ballI)
          fix q z
          assume q: "resolveFrom h (path_dirname p) (x @ ''/package.json'') = Some q"
            and z: "z \<in> insert p X"
          show "\<exists>y\<in>insert q (insert p X). dep_edge h z y"
          proof (cases "z = p")
            case True
            from node(1,2,3) x q have "dep_edge h p q" by (auto simp: dep_edge_def)
            with True show ?thesis by blast
          next
            case False
            with z edges show ?thesis by blast
          qed
        qed
        from loaded_steps[of n h pd] r s e have "scan_loaded (insert p X) s'" by blast
        moreover from IHget[OF r _ e] s have "scan_provenance h s'" by blast
        ultimately show "(scan_loaded (insert p X) s' \<and> scan_provenance h s') \<and> True" by simp
      qed
      then have prov1: "scan_provenance h st1" by simp
      from mapS_getDep_cached[OF node(4)]
      have cached: "list_all2 (\<lambda>dep y. \<exists>q. resolveFrom h (path_dirname p) (dep @ ''/package.json'') = Some q
                \<and> packageCache st1 q = Some y) ?names infos" by simp
      have cache': "packageCache st' = packageCache st1" unfolding node(5) by simp
      have child: "\<exists>q child. resolveFrom h (path_dirname p) (name @ ''/package.json'') = Some q
           \<and> packageCache st1 q = Some child \<and> r = pick_record child"
        if "(name, ci) \<in> set ?subs" "r = pick_record ci" for name ci r
        using zip_all2_mem[OF cached that(1)] that(2) by blast
      have nest: "\<exists>q child. resolveFrom h (path_dirname p) (name @ ''/package.json'') = Some q
           \<and> packageCache st' q = Some child \<and> r = pick_record child"
        if n: "nested_record (pick_record i) name = Some r" for name r
      proof -
        from n have "map_of (fst ?placed) name = Some r"
          unfolding node(6) by (simp add: nested_record_built_info)
        with fold_placeSubDep_from[of pd "path_dirname p" ?subs "[]" "topLevelDeps st1" name r]
        obtain ci where "(name, ci) \<in> set ?subs" "r = pick_record ci" by auto
        from child[OF this] show ?thesis unfolding cache' .
      qed
      have topl: "\<exists>dir q child. resolveFrom h dir (name @ ''/package.json'') = Some q
           \<and> packageCache st' q = Some child \<and> r = pick_record child"
        if t: "map_of (topLevelDeps st') name = Some r" for name r
      proof -
        from t have "map_of (snd ?placed) name = Some r" unfolding node(5) by simp
        with fold_placeSubDep_from[of pd "path_dirname p" ?subs "[]" "topLevelDeps st1" name r]
        have "map_of (topLevelDeps st1) name = Some r
              \<or> (\<exists>ci. (name, ci) \<in> set ?subs \<and> r = pick_record ci)" by blast
        then show ?thesis
        proof
          assume "map_of (topLevelDeps st1) name = Some r"
          with prov1 show ?thesis unfolding scan_provenance_def cache' by blast
        next
          assume "\<exists>ci. (name, ci) \<in> set ?subs \<and> r = pick_record ci"
          then obtain ci where "(name, ci) \<in> set ?subs" "r = pick_record ci" by blast
          from child[OF this] show ?thesis unfolding cache' by blast
        qed
      qed
      have "scan_provenance h st'"
        unfolding scan_provenance_def
      proof (intro conjI allI impI)
        fix p' i' name r
        assume "packageCache st' p' = Some i' \<and> nested_record (pick_record i') name = Some r"
        with prov1 show "\<exists>q child. resolveFrom h (path_dirname p') (name @ ''/package.json'') = Some q
           \<and> packageCache st' q = Some child \<and> r = pick_record child"
          unfolding scan_provenance_def cache' by blast
      next
        fix name r
        assume "map_of (topLevelDeps st') name = Some r"
        from topl[OF this] show "\<exists>dir q child. resolveFrom h dir (name @ ''/package.json'') = Some q
           \<and> packageCache st' q = Some child \<and> r = pick_record child" .
      qed
      with none nest show ?thesis by blast
    qed
  qed
  from get coll show ?case by blast
qed

lemma scan_run_provenance:
  assumes "scan_run n h = Some (Inr st)"
  shows "scan_provenance h st"
  using assms
proof (cases rule: scan_run_success)
  case (1 packageJson st1)
  let ?pd = "path_dirname (path_resolve (cwd h) ''package.json'')"
  let ?I = "\<lambda>s. scan_loaded {} s \<and> scan_provenance h s"
  have step: "?I s'"
    if "?I s" and "getDepPackageInfo n h ?pd ?pd x ''dependencies'' s = Some (Inr (y, s'))"
    for x s y s'
  proof -
    from loaded_steps[of n h ?pd] that have "scan_loaded {} s'" by blast
    moreover from provenance_steps[of n h ?pd] that have "scan_provenance h s'" by blast
    ultimately show ?thesis by simp
  qed
  have "?I initial_state"
    by (simp add: scan_loaded_def scan_provenance_def initial_state_def)
  from forEachDep_success[where I = ?I, OF 1(2) this] step
  have "?I st1" by blast
  then have "?I (st1\<lparr>devFlag := True\<rparr>)" by (simp add: scan_loaded_def)
  from forEachDep_success[where I = ?I, OF 1(3) this] step
  show ?thesis by blast
qed

subsection \<open>Termination\<close>

lemma mapS_returns:
  "(\<And>x s. x \<in> set xs \<Longrightarrow> f x s \<noteq> None) \<Longrightarrow> mapS f xs st \<noteq> None"
proof (induction xs arbitrary: st)
  case Nil
  then show ?case by simp
next
  case (Cons x xs)
  from Cons.prems[of x st] obtain r where r: "f x st = Some r" by auto
  show ?case
  proof (cases r)
    case (Inl e)
    with r show ?thesis by simp
  next
    case (Inr ys)
    obtain y s1 where "ys = (y, s1)" by (cases ys)
    moreover from Cons.IH[of s1] Cons.prems obtain r' where "mapS f xs s1 = Some r'" by auto
    ultimately show ?thesis using r Inr by (cases r') auto
  qed
qed

lemma uniform_bound:
  "(\<And>x. x \<in> set xs \<Longrightarrow> \<exists>N. \<forall>n\<ge>N. P x n) \<Longrightarrow> \<exists>M. \<forall>x\<in>set xs. \<forall>n\<ge>M. P x (n::nat)"
proof (induction xs)
  case Nil
  then show ?case by simp
next
  case (Cons x xs)
  from Cons.prems[of x] obtain N where N: "\<forall>n\<ge>N. P x n" by auto
  from Cons.IH Cons.prems obtain M where M: "\<forall>y\<in>set xs. \<forall>n\<ge>M. P y n" by auto
  have "\<forall>y\<in>set (x # xs). \<forall>n\<ge>max N M. P y n" using N M by auto
  then show ?case by blast
qed

lemma getDep_returns:
  assumes "\<And>q. resolveFrom h dir (name @ ''/package.json'') = Some q \<Longrightarrow>
             \<forall>n\<ge>N. \<forall>pd st. collectDepPackageInfo n h pd q dp st \<noteq> None"
    and "n \<ge> Suc N"
  shows "getDepPackageInfo n h pd dir name dp st \<noteq> None"
proof -
  from assms(2) obtain m where n: "n = Suc m" and m: "m \<ge> N" by (cases n) auto
  show ?thesis
  proof (cases "resolveFrom h dir (name @ ''/package.json'')")
    case None
    then show ?thesis unfolding n by simp
  next
    case (Some q)
    from assms(1)[OF Some] m obtain r where "collectDepPackageInfo m h pd q dp st = Some r" by blast
    with Some show ?thesis unfolding n by (auto split: option.splits sum.splits)
  qed
qed

lemma collect_returns:
  assumes wf: "wf {(q, p). dep_edge h p q}"
  shows "\<exists>N. \<forall>n\<ge>N. \<forall>pd st. collectDepPackageInfo n h pd p ''dependencies'' st \<noteq> None"
  using wf
proof (induction p rule: wf_induct_rule)
  case (less p)
  let ?names = "case requireJson h p of None \<Rightarrow> []
                | Some pj \<Rightarrow> if \<not> nullish pj \<and> truthy (js_get pj ''dependencies'')
                             then map fst (js_entries (js_get pj ''dependencies'')) else []"
  let ?P = "\<lambda>x n. \<forall>q. resolveFrom h (path_dirname p) (x @ ''/package.json'') = Some q \<longrightarrow>
                (\<forall>pd st. collectDepPackageInfo n h pd q ''dependencies'' st \<noteq> None)"
  have "\<exists>N. \<forall>n\<ge>N. ?P x n" if x: "x \<in> set ?names" for x
  proof (cases "resolveFrom h (path_dirname p) (x @ ''/package.json'')")
    case None
    then show ?thesis by simp
  next
    case (Some q)
    from x obtain pj where "requireJson h p = Some pj" and "\<not> nullish pj"
      and "truthy (js_get pj ''dependencies'')"
      and "x \<in> set (map fst (js_entries (js_get pj ''dependencies'')))"
      by (cases "requireJson h p") (auto split: if_splits)
    with Some have "dep_edge h p q"
      unfolding dep_edge_def by auto
    from less.IH[of q] this Some show ?thesis by simp
  qed
  from uniform_bound[where P = ?P, OF this] obtain M where
    M: "\<forall>x\<in>set ?names. \<forall>n\<ge>M. ?P x n" by blast
  have "collectDepPackageInfo n h pd p ''dependencies'' st \<noteq> None" if n: "n \<ge> Suc (Suc M)" for n pd st
  proof -
    from n obtain m where nm: "n = Suc m" and m: "m \<ge> Suc M" by (cases n) auto
    show ?thesis
    proof (cases "requireJson h p")
      case None
      then show ?thesis unfolding nm by simp
    next
      case (Some pj)
      show ?thesis
      proof (cases "\<not> nullish pj \<and> truthy (js_get pj ''dependencies'')")
        case False
        with Some show ?thesis unfolding nm by (auto simp: Let_def)
      next
        case True
        with Some have names: "?names = map fst (js_entries (js_get pj ''dependencies''))" by simp
        have "mapS (\<lambda>dep. getDepPackageInfo m h pd (path_dirname p) dep ''dependencies'')
                (map fst (js_entries (js_get pj ''dependencies''))) (st\<lparr>required := required st @ [p]\<rparr>) \<noteq> None"
        proof (rule mapS_returns)
          fix x s
          assume "x \<in> set (map fst (js_entries (js_get pj ''dependencies'')))"
          with names have "x \<in> set ?names" by simp
          from bspec[OF M this] have "\<forall>n\<ge>M. ?P x n" .
          then have "\<And>q. resolveFrom h (path_dirname p) (x @ ''/package.json'') = Some q \<Longrightarrow>
             \<forall>n\<ge>M. \<forall>pd st. collectDepPackageInfo n h pd q ''dependencies'' st \<noteq> None"
            by blast
          from getDep_returns[OF this m]
          show "getDepPackageInfo m h pd (path_dirname p) x ''dependencies'' s \<noteq> None" .
        qed
        then obtain r where "mapS (\<lambda>dep. getDepPackageInfo m h pd (path_dirname p) dep ''dependencies'')
                (map fst (js_entries (js_get pj ''dependencies''))) (st\<lparr>required := required st @ [p]\<rparr>) = Some r"
          by blast
        with Some True show ?thesis unfolding nm
          by (auto simp: Let_def split: option.splits sum.splits)
      qed
    qed
  qed
  then show ?case by blast
qed

lemma forEachDep_returns:
  assumes wf: "wf {(q, p). dep_edge h p q}"
  shows "\<exists>N. \<forall>n\<ge>N. \<forall>st. forEachDep n h pd deps st \<noteq> None"
proof -
  let ?P = "\<lambda>x n. \<forall>q. resolveFrom h pd (x @ ''/package.json'') = Some q \<longrightarrow>
                (\<forall>pd' st. collectDepPackageInfo n h pd' q ''dependencies'' st \<noteq> None)"
  have "\<exists>N. \<forall>n\<ge>N. ?P x n" for x
  proof (cases "resolveFrom h pd (x @ ''/package.json'')")
    case None
    then show ?thesis by simp
  next
    case (Some q)
    with collect_returns[OF wf, of q] show ?thesis by simp
  qed
  from uniform_bound[where P = ?P and xs = "map fst (js_entries deps)", OF this] obtain M where
    M: "\<forall>x\<in>set (map fst (js_entries deps)). \<forall>n\<ge>M. ?P x n" by blast
  have "forEachDep n h pd deps st \<noteq> None" if n: "n \<ge> Suc M" for n st
  proof (cases "nullish deps")
    case True
    then show ?thesis by (simp add: forEachDep_def object_keys_def)
  next
    case False
    have "mapS (\<lambda>dep. getDepPackageInfo n h pd pd dep ''dependencies'') (map fst (js_entries deps)) st \<noteq> None"
    proof (rule mapS_returns)
      fix x s
      assume "x \<in> set (map fst (js_entries deps))"
      from bspec[OF M this] have "\<forall>n\<ge>M. ?P x n" .
      then have "\<And>q. resolveFrom h pd (x @ ''/package.json'') = Some q \<Longrightarrow>
             \<forall>n\<ge>M. \<forall>pd' st. collectDepPackageInfo n h pd' q ''dependencies'' st \<noteq> None"
        by blast
      from getDep_returns[OF this n]
      show "getDepPackageInfo n h pd pd x ''dependencies'' s \<noteq> None" .
    qed
    then obtain r where "mapS (\<lambda>dep. getDepPackageInfo n h pd pd dep ''dependencies'') (map fst (js_entries deps)) st = Some r"
      by blast
    with False show ?thesis
      by (auto simp: forEachDep_def object_keys_def split: option.splits sum.splits)
  qed
  then show ?thesis by blast
qed

lemma scan_run_returns:
  assumes wf: "wf {(q, p). dep_edge h p q}"
  shows "\<exists>N. \<forall>n\<ge>N. scan_run n h \<noteq> None"
proof (cases "requireJson h (path_resolve (cwd h) ''package.json'')")
  case None
  then show ?thesis by (simp add: scan_run_def Let_def)
next
  case (Some pj)
  let ?pd = "path_dirname (path_resolve (cwd h) ''package.json'')"
  from forEachDep_returns[OF wf, of ?pd "js_get pj ''dependencies''"] obtain N1 where
    N1: "\<forall>n\<ge>N1. \<forall>st. forEachDep n h ?pd (js_get pj ''dependencies'') st \<noteq> None" by blast
  from forEachDep_returns[OF wf, of ?pd "js_get pj ''devDependencies''"] obtain N2 where
    N2: "\<forall>n\<ge>N2. \<forall>st. forEachDep n h ?pd (js_get pj ''devDependencies'') st \<noteq> None" by blast
  have "scan_run n h \<noteq> None" if "n \<ge> max N1 N2" for n
  proof -
    from that N1 obtain r1 where r1: "forEachDep n h ?pd (js_get pj ''dependencies'') initial_state = Some r1"
      by (metis max.bounded_iff not_None_eq)
    from that N2 have r2: "\<And>st. forEachDep n h ?pd (js_get pj ''devDependencies'') st \<noteq> None"
      by simp
    from Some r1 r2 show ?thesis
      by (auto simp: scan_run_def Let_def split: sum.splits)
  qed
  then show ?thesis by blast
qed

lemma dep_edge_finite: "finite {(q, p). dep_edge h p q}"
proof -
  have assms: "finite (dom (requireJson h))"
    unfolding requireJson_def by (rule finite_dom_map_of)
  let ?names = "\<lambda>p. case requireJson h p of None \<Rightarrow> [] | Some pj \<Rightarrow> map fst (js_entries (js_get pj ''dependencies''))"
  let ?E = "\<Union>p \<in> dom (requireJson h).
              (\<lambda>dep. (the (resolveFrom h (path_dirname p) (dep @ ''/package.json'')), p)) ` set (?names p)"
  have "{(q, p). dep_edge h p q} \<subseteq> ?E"
    by (auto simp: dep_edge_def split: option.splits) force
  moreover have "finite ?E" using assms by auto
  ultimately show ?thesis by (rule finite_subset)
qed

lemma dep_edge_wf:
  assumes "acyclic {(p, q). dep_edge h p q}"
  shows "wf {(q, p). dep_edge h p q}"
proof -
  have "{(q, p). dep_edge h p q} = {(p, q). dep_edge h p q}\<inverse>" by auto
  with assms have "acyclic {(q, p). dep_edge h p q}" by (simp add: acyclic_converse)
  with dep_edge_finite show ?thesis by (rule finite_acyclic_wf)
qed

subsection \<open>Runs of the examples\<close>

lemma audit_run:
  "getAuditData 0 audit_host = Some (Inr (JObj
     [(''name'', JStr ''proj''), (''version'', JStr ''0.1.0''),
      (''requires'', JObj [(''lodash'', JStr ''^4.17.0''), (''mocha'', JStr ''^5.0.0'')]),
      (''dependencies'', JObj [(''lodash'', JObj [(''version'', JStr ''4.17.21'')])]),
      (''install'', JArr []), (''remove'', JArr []),
      (''metadata'', JObj [(''node_version'', JStr ''v10.0.0'')])]))"
  by (simp add: requireJson_def getAuditData_def getAllDependencies_def getNpmLockDependencies_def audit_host_def
        audit_files_def path_resolve_def path_join_def filterTree.simps pick.simps
        LOCKED_DEPENDENCIES_REQUIRED_PROPERTIES_def object_assign_def set_prop_def
        key_before_def array_index_def)

lemma fallback_primary: "getNpmLockDependencies fallback_host ''package-lock.json'' = Inl (FileError ''package-lock.json'')"
  by (simp add: requireJson_def getNpmLockDependencies_def fallback_host_def path_resolve_def path_join_def)

lemma fallback_filter: "filterTree (js_get fallback_json ''dependencies'') = Inr left_pad_tree"
  by (simp add: fallback_json_def left_pad_tree_def filterTree.simps pick.simps
        LOCKED_DEPENDENCIES_REQUIRED_PROPERTIES_def)

lemma no_lock_files:
  "getNpmLockDependencies left_pad_host f = Inl (FileError f)"
  "getNpmLockDependencies left_pad_host_dev f = Inl (FileError f)"
  "getNpmLockDependencies diamond_host f = Inl (FileError f)"
  by (simp_all add: requireJson_def getNpmLockDependencies_def left_pad_host_def left_pad_host_dev_def diamond_host_def)

lemma left_pad_edges:
  "dep_edge left_pad_host p q \<Longrightarrow>
   p = ''/proj/package.json'' \<and> q = ''/proj/node_modules/left-pad/package.json''"
  by (auto simp: requireJson_def dep_edge_def left_pad_host_def left_pad_files_def hoisted_resolve_def
        split: if_splits option.splits)

lemma nested_a_run:
  "map_option (map_sum id (\<lambda>r. packageCache (snd r) ''/proj/node_modules/a/node_modules/c/package.json''))
     (collectDepPackageInfo (Suc 2) nested_host ''/proj'' ''/proj/node_modules/a/package.json''
        ''dependencies'' initial_state)
   = Some (Inr (Some (leaf_info ''/proj/node_modules/a/node_modules/c'')))"
  by code_simp

lemma nested_a_sub:
  "map_option (map_sum id (\<lambda>r. topLevelDeps (snd r)))
     (mapS (\<lambda>d. getDepPackageInfo 2 nested_host ''/proj''
                 (path_dirname ''/proj/node_modules/a/package.json'') d ''dependencies'')
        (map fst (js_entries (js_get manifest_a ''dependencies'')))
        (initial_state\<lparr>required := required initial_state @ [''/proj/node_modules/a/package.json'']\<rparr>))
   = Some (Inr [])"
  by code_simp

lemma shared_a_run:
  "map_option (map_sum id (\<lambda>r. packageCache (snd r) ''/proj/node_modules/c/package.json''))
     (collectDepPackageInfo (Suc 2) shared_c_host ''/proj'' ''/proj/node_modules/a/package.json''
        ''dependencies'' initial_state)
   = Some (Inr (Some (leaf_info ''/proj/node_modules/c'')))"
  by code_simp

lemma shared_a_sub:
  "map_option (map_sum id (\<lambda>r. topLevelDeps (snd r)))
     (mapS (\<lambda>d. getDepPackageInfo 2 shared_c_host ''/proj''
                 (path_dirname ''/proj/node_modules/a/package.json'') d ''dependencies'')
        (map fst (js_entries (js_get manifest_a ''dependencies'')))
        (initial_state\<lparr>required := required initial_state @ [''/proj/node_modules/a/package.json'']\<rparr>))
   = Some (Inr [])"
  by code_simp

lemma shared_b_run:
  "map_option (map_sum id (\<lambda>r. packageCache (snd r) ''/proj/node_modules/c/package.json''))
     (collectDepPackageInfo (Suc 1) shared_c_host ''/proj'' ''/proj/node_modules/b/package.json''
        ''dependencies'' claimed_c)
   = Some (Inr (Some (leaf_info ''/proj/node_modules/c'')))"
  by code_simp

lemma shared_b_sub:
  "map_option (map_sum id (\<lambda>r. topLevelDeps (snd r)))
     (mapS (\<lambda>d. getDepPackageInfo 1 shared_c_host ''/proj''
                 (path_dirname ''/proj/node_modules/b/package.json'') d ''dependencies'')
        (map fst (js_entries (js_get manifest_b ''dependencies'')))
        (claimed_c\<lparr>required := required claimed_c @ [''/proj/node_modules/b/package.json'']\<rparr>))
   = Some (Inr [(''c'', leaf_record)])"
  by code_simp

lemma example_manifests:
  "requireJson nested_host ''/proj/node_modules/a/package.json'' = Some manifest_a"
  "requireJson shared_c_host ''/proj/node_modules/a/package.json'' = Some manifest_a"
  "requireJson shared_c_host ''/proj/node_modules/b/package.json'' = Some manifest_b"
  by (simp_all add: requireJson_def nested_host_def nested_files_def shared_c_host_def
        shared_c_files_def manifest_a_def manifest_b_def)

lemma example_dirs:
  "path_dirname ''/proj/node_modules/a/package.json'' = ''/proj/node_modules/a''"
  "path_dirname ''/proj/node_modules/b/package.json'' = ''/proj/node_modules/b''"
  "path_dirname ''/proj/node_modules/c'' = ''/proj/node_modules''"
  "path_join ''/proj'' ''node_modules'' = ''/proj/node_modules''"
  by code_simp+

lemma texts_differ: "audit_text \<noteq> fallback_text"
  by (simp add: audit_text_def fallback_text_def)

lemma lodash_filter: "filterTree (js_get lodash_json ''dependencies'') = Inr lodash_tree"
  by (simp add: lodash_json_def lodash_tree_def filterTree.simps pick.simps
        LOCKED_DEPENDENCIES_REQUIRED_PROPERTIES_def)

lemma both_locks_fallback:
  "getNpmLockDependencies both_locks_host ''npm-shrinkwrap.json'' = Inr left_pad_tree"
  using texts_differ
  by (simp add: getNpmLockDependencies_def both_locks_host_def path_resolve_def path_join_def
        fallback_filter) (simp add: fallback_json_def)

lemma diamond_run:
  "map_option (map_sum id (\<lambda>st. (required st, topLevelDeps st,
       map_option (\<lambda>i. nested_record (pick_record i) ''c'')
         (packageCache st ''/proj/node_modules/b/package.json''),
       map_option (\<lambda>i. nested_record (pick_record i) ''c'')
         (packageCache st ''/proj/node_modules/a/package.json''))))
     (scan_run 6 diamond_host) =
     Some (Inr ([''/proj/node_modules/app/package.json'', ''/proj/node_modules/a/package.json'',
                 ''/proj/node_modules/c/package.json'', ''/proj/node_modules/b/package.json''],
                [(''c'', leaf_record), (''a'', JObj [(''version'', JStr ''1.1.0''),
                      (''requires'', JObj [(''c'', JStr ''1.3.0'')]),
                      (''integrity'', JStr ''sha1-a'')]),
                 (''b'', JObj [(''version'', JStr ''1.2.0''),
                      (''requires'', JObj [(''c'', JStr ''1.3.0'')]),
                      (''integrity'', JStr ''sha1-b''),
                      (''dependencies'', JObj [(''c'', leaf_record)])])],
                Some (Some leaf_record), Some None))"
  by code_simp

lemma dev_prod_run_tree:
  "map_option (map_sum id (\<lambda>st. (topLevelDeps st, required st,
       map_option (\<lambda>i. nested_record (pick_record i) ''d'')
         (packageCache st ''/proj/node_modules/q/package.json''))))
     (scan_run 4 dev_prod_host) =
     Some (Inr ([(''d'', JObj [(''version'', JStr ''3.0.0''), (''integrity'', JStr ''sha1-d'')]),
                 (''e'', JObj [(''version'', JStr ''4.0.0''), (''dev'', JBool True),
                               (''integrity'', JStr ''sha1-e'')])],
                [''/proj/node_modules/p/package.json'', ''/proj/node_modules/d/package.json'',
                 ''/proj/node_modules/q/package.json'', ''/proj/node_modules/e/package.json''],
                Some (Some (JObj [(''version'', JStr ''3.0.0''), (''integrity'', JStr ''sha1-d'')]))))"
  by code_simp

subsection \<open>Source selection and payload\<close>

lemma getAllDependencies_cases:
  "getAllDependencies n h = Some (Inr T) \<Longrightarrow>
     getNpmLockDependencies h ''package-lock.json'' = Inr T
     \<or> getNpmLockDependencies h ''npm-shrinkwrap.json'' = Inr T
     \<or> scanInstalledDependencies n h = Some (Inr T)"
  by (auto simp: getAllDependencies_def split: sum.splits option.splits)

lemma fold_set_prop_other:
  "k \<notin> fst ` set kvs \<Longrightarrow>
   map_of (fold (\<lambda>kv t. set_prop t (fst kv) (snd kv)) kvs acc) k = map_of acc k"
  by (induction kvs arbitrary: acc) (auto simp: map_of_set_prop)

lemma fold_set_prop_last:
  "distinct (map fst kvs) \<Longrightarrow> (k, x) \<in> set kvs \<Longrightarrow>
   map_of (fold (\<lambda>kv t. set_prop t (fst kv) (snd kv)) kvs acc) k = Some x"
proof (induction kvs arbitrary: acc)
  case Nil
  then show ?case by simp
next
  case (Cons kv kvs)
  show ?case
  proof (cases "(k, x) \<in> set kvs")
    case True
    with Cons show ?thesis by simp
  next
    case False
    with Cons.prems have kv: "kv = (k, x)" by auto
    with Cons.prems(1) have "k \<notin> fst ` set kvs" by simp
    with kv show ?thesis by (simp add: fold_set_prop_other map_of_set_prop)
  qed
qed

section \<open>The claims about the scanner\<close>

text \<open>
  C1.  The claim: for a project manifest declaring exactly the production dependency
  \<^verbatim>\<open>left-pad\<close>, with no devDependencies, where \<^verbatim>\<open>left-pad\<close> resolves at the shared
  dependency root to a manifest with version 1.3.0, integrity sha1-abc and no dependencies,
  the scan returns \<^verbatim>\<open>{ "left-pad": { version: "1.3.0", integrity: "sha1-abc" } }\<close>.  The
  code does not: the records of the project's own dependencies are discarded by the loops
  of lines 185 and 189, and \<^verbatim>\<open>Object.keys(packageJson.devDependencies)\<close> throws when the
  manifest has no \<^verbatim>\<open>devDependencies\<close>.  With any fuel that lets the resolution of
  \<^verbatim>\<open>left-pad\<close> finish, the scan throws a TypeError; with an empty \<^verbatim>\<open>devDependencies\<close>
  object in the manifest it returns the empty mapping.
\<close>

theorem scan_misses_direct_dependency:
  "scanInstalledDependencies (Suc (Suc n)) left_pad_host = Some (Inl TypeError)
   \<and> scanInstalledDependencies (Suc (Suc n)) left_pad_host_dev = Some (Inr (JObj []))"
  by (simp add: requireJson_def scanInstalledDependencies_def scan_run_def left_pad_host_dev_def left_pad_host_def
        left_pad_files_def left_pad_files_dev_def hoisted_resolve_def path_resolve_def
        path_join_def path_dirname_def forEachDep_def object_keys_def initial_state_def)

text \<open>
  C2, as stated, fails: a later resolution of a name that is already present at top level
  is not dropped when the package lies inside the project directory; it is placed under
  the requesting parent's \<^verbatim>\<open>dependencies\<close>.  In the scan below, \<^verbatim>\<open>c\<close> is promoted to
  top level by the edge from \<^verbatim>\<open>a\<close>, and the later edge from \<^verbatim>\<open>b\<close> puts the same record
  into the \<^verbatim>\<open>dependencies\<close> of \<^verbatim>\<open>b\<close>.
\<close>

theorem later_resolution_placed_under_parent:
  "scanInstalledDependencies 6 diamond_host = Some (Inr diamond_tree)
   \<and> js_get diamond_tree ''c''
       = JObj [(''version'', JStr ''1.3.0''), (''integrity'', JStr ''sha1-c'')]
   \<and> js_get (js_get (js_get diamond_tree ''b'') ''dependencies'') ''c''
       = JObj [(''version'', JStr ''1.3.0''), (''integrity'', JStr ''sha1-c'')]"
  by code_simp

text \<open>
  C2, amended.  The edges that a scan classifies are those that the loop of
  \<^verbatim>\<open>collectDepPackageInfo\<close> visits: for a call on the manifest at \<open>p\<close> that returns the
  record \<open>info\<close>, one edge for every name \<open>dep\<close> that the manifest declares.  Let \<open>q\<close> be
  the path that \<open>dep\<close> resolves to from the directory of \<open>p\<close>.  Then the call has resolved
  all declared dependencies, ending in a state \<open>before\<close> in which the loop starts, and the
  cache holds a record \<open>child\<close> for \<open>q\<close> from then on.  A manifest declares a name once, so
  the entry of \<^verbatim>\<open>topLevelDeps\<close> for \<open>dep\<close> in \<open>before\<close> is the one that the step for this
  edge finds.  In this order of precedence: if the child's directory has the parent's
  directory as a string prefix, the parent's record holds the child's projection under
  \<^verbatim>\<open>dependencies\<close>, and the loop leaves the top-level entry of the name as it was;
  otherwise, if the child is a top-level one for \<^verbatim>\<open>isTopLevelDep\<close> (its directory sits
  directly under the project's \<^verbatim>\<open>node_modules\<close>, or the project directory does not occur
  in it), the name has no top-level entry and is not the name of a member of
  \<^verbatim>\<open>Object.prototype\<close>, the child's projection is the top-level entry of the name after
  the loop, and the parent's record has no entry for it; otherwise, if the name has a
  top-level entry or the child is not a top-level one, the top-level entry of the name is
  as before (nothing is merged or overwritten), and the child's projection is placed under
  the parent's \<^verbatim>\<open>dependencies\<close> if the child's directory starts with the project
  directory, and dropped if not.  Moreover no name gets two top-level entries, the call
  changes no entry that is present at top level when it starts, and the child's directory
  is the directory of its manifest when this holds of the records cached before the call,
  as it does in a scan.
\<close>

theorem dependency_edge_classified:
  assumes run: "collectDepPackageInfo (Suc n) h packageDir p ''dependencies'' st = Some (Inr (info, st'))"
    and manifest: "requireJson h p = Some packageJson"
    and names: "distinct (map fst (js_entries (js_get packageJson ''dependencies'')))"
    and dep: "dep \<in> fst ` set (js_entries (js_get packageJson ''dependencies''))"
    and resolved: "resolveFrom h (path_dirname p) (dep @ ''/package.json'') = Some q"
  shows "\<exists>infos before child.
       mapS (\<lambda>d. getDepPackageInfo n h packageDir (path_dirname p) d ''dependencies'')
         (map fst (js_entries (js_get packageJson ''dependencies'')))
         (st\<lparr>required := required st @ [p]\<rparr>) = Some (Inr (infos, before))
     \<and> packageCache before q = Some child \<and> packageCache st' q = Some child
     \<and> (prefix (path_dirname p) (info_packageDir child) \<longrightarrow>
          nested_record (pick_record info) dep = Some (pick_record child)
          \<and> map_of (topLevelDeps st') dep = map_of (topLevelDeps before) dep)
     \<and> (\<not> prefix (path_dirname p) (info_packageDir child)
          \<and> isTopLevelDep packageDir (info_packageDir child)
          \<and> \<not> has_prop (JObj (topLevelDeps before)) dep
          \<and> dep \<notin> set OBJECT_PROTOTYPE_MEMBERS \<longrightarrow>
          map_of (topLevelDeps st') dep = Some (pick_record child)
          \<and> nested_record (pick_record info) dep = None)
     \<and> (\<not> prefix (path_dirname p) (info_packageDir child)
          \<and> (truthy (js_get (JObj (topLevelDeps before)) dep)
               \<or> \<not> isTopLevelDep packageDir (info_packageDir child)) \<longrightarrow>
          map_of (topLevelDeps st') dep = map_of (topLevelDeps before) dep
          \<and> nested_record (pick_record info) dep =
              (if prefix packageDir (info_packageDir child) then Some (pick_record child) else None))
     \<and> (distinct (map fst (topLevelDeps st)) \<longrightarrow> distinct (map fst (topLevelDeps st')))
     \<and> (\<forall>k. truthy (js_get (JObj (topLevelDeps st)) k) \<longrightarrow>
          js_get (JObj (topLevelDeps st')) k = js_get (JObj (topLevelDeps st)) k)
     \<and> ((\<forall>m i. packageCache st m = Some i \<longrightarrow> info_packageDir i = path_dirname m) \<longrightarrow>
          info_packageDir child = path_dirname q)"
proof -
  let ?names = "map fst (js_entries (js_get packageJson ''dependencies''))"
  from dep have "js_entries (js_get packageJson ''dependencies'') \<noteq> []" by auto
  then have tr: "truthy (js_get packageJson ''dependencies'')" by (rule js_entries_truthy)
  from run manifest tr obtain infos before where
    sub: "mapS (\<lambda>d. getDepPackageInfo n h packageDir (path_dirname p) d ''dependencies'')
            ?names (st\<lparr>required := required st @ [p]\<rparr>) = Some (Inr (infos, before))"
    and st': "st' = before\<lparr>topLevelDeps :=
           snd (fold (placeSubDep packageDir (path_dirname p)) (zip ?names infos)
                  ([], topLevelDeps before))\<rparr>"
    and info: "info = built_info p packageJson (devFlag before)
             (Some (map (\<lambda>kv. (fst kv, info_version (snd kv))) (zip ?names infos)))
             (let d = fst (fold (placeSubDep packageDir (path_dirname p)) (zip ?names infos)
                             ([], topLevelDeps before))
              in if d = [] then None else Some d)"
    by (cases rule: collect_Suc_success) simp_all
  let ?subs = "zip ?names infos"
  from mapS_getDep_cached[OF sub]
  have cached: "list_all2 (\<lambda>dep y. \<exists>q. resolveFrom h (path_dirname p) (dep @ ''/package.json'') = Some q
                \<and> packageCache before q = Some y) ?names infos" by simp
  from dep have "dep \<in> set ?names" by simp
  from zip_all2_left[OF cached this] resolved obtain child where
    mem: "(dep, child) \<in> set ?subs" and c: "packageCache before q = Some child" by auto
  from cached have len: "length ?names = length infos" by (rule list_all2_lengthD)
  then have "map fst ?subs = ?names" by simp
  with names have dist: "distinct (map fst ?subs)" by simp
  note at = fold_placeSubDep_at[OF dist mem, of packageDir "path_dirname p" "[]" "topLevelDeps before"]
  have nested: "nested_record (pick_record info) dep
      = map_of (fst (placeSubDep packageDir (path_dirname p) (dep, child) ([], topLevelDeps before))) dep"
    unfolding info using at by (simp add: nested_record_built_info)
  have topl: "map_of (topLevelDeps st') dep
      = map_of (snd (placeSubDep packageDir (path_dirname p) (dep, child) ([], topLevelDeps before))) dep"
    unfolding st' using at by simp
  have a: "prefix (path_dirname p) (info_packageDir child) \<longrightarrow>
          nested_record (pick_record info) dep = Some (pick_record child)
          \<and> map_of (topLevelDeps st') dep = map_of (topLevelDeps before) dep"
    unfolding nested topl
    by (simp add: placeSubDep_def isLocalDep_prefix map_of_set_prop)
  have b: "\<not> prefix (path_dirname p) (info_packageDir child)
          \<and> isTopLevelDep packageDir (info_packageDir child)
          \<and> \<not> has_prop (JObj (topLevelDeps before)) dep
          \<and> dep \<notin> set OBJECT_PROTOTYPE_MEMBERS \<longrightarrow>
          map_of (topLevelDeps st') dep = Some (pick_record child)
          \<and> nested_record (pick_record info) dep = None"
  proof
    assume h: "\<not> prefix (path_dirname p) (info_packageDir child)
          \<and> isTopLevelDep packageDir (info_packageDir child)
          \<and> \<not> has_prop (JObj (topLevelDeps before)) dep
          \<and> dep \<notin> set OBJECT_PROTOTYPE_MEMBERS"
    then have "map_of (topLevelDeps before) dep = None"
      by (simp add: has_prop_def map_of_eq_None_iff)
    with h have "\<not> truthy_member (topLevelDeps before) dep"
      by (simp add: truthy_member_def)
    with h show "map_of (topLevelDeps st') dep = Some (pick_record child)
          \<and> nested_record (pick_record info) dep = None"
      unfolding nested topl
      by (simp add: placeSubDep_def isLocalDep_prefix map_of_set_prop)
  qed
  have c3: "\<not> prefix (path_dirname p) (info_packageDir child)
          \<and> (truthy (js_get (JObj (topLevelDeps before)) dep)
               \<or> \<not> isTopLevelDep packageDir (info_packageDir child)) \<longrightarrow>
          map_of (topLevelDeps st') dep = map_of (topLevelDeps before) dep
          \<and> nested_record (pick_record info) dep =
              (if prefix packageDir (info_packageDir child) then Some (pick_record child) else None)"
  proof
    assume h: "\<not> prefix (path_dirname p) (info_packageDir child)
          \<and> (truthy (js_get (JObj (topLevelDeps before)) dep)
               \<or> \<not> isTopLevelDep packageDir (info_packageDir child))"
    then have "\<not> (isTopLevelDep packageDir (info_packageDir child)
                 \<and> \<not> truthy_member (topLevelDeps before) dep)"
      using truthy_member_own[of "topLevelDeps before" dep] by blast
    then have nt: "(isTopLevelDep packageDir (info_packageDir child)
                 \<and> \<not> truthy_member (topLevelDeps before) dep) = False" by simp
    from h have nl: "\<not> prefix (path_dirname p) (info_packageDir child)" by simp
    show "map_of (topLevelDeps st') dep = map_of (topLevelDeps before) dep
          \<and> nested_record (pick_record info) dep =
              (if prefix packageDir (info_packageDir child) then Some (pick_record child) else None)"
      unfolding nested topl
      by (simp add: placeSubDep_def Let_def isLocalDep_prefix indexOf_eq_0 map_of_set_prop nt nl)
  qed
  from top_distinct_steps[of "Suc n" h packageDir] run
  have d: "distinct (map fst (topLevelDeps st)) \<longrightarrow> distinct (map fst (topLevelDeps st'))" by blast
  from scan_extends_steps[of "Suc n" h packageDir] run have "scan_extends st st'" by blast
  then have e: "\<forall>k. truthy (js_get (JObj (topLevelDeps st)) k) \<longrightarrow>
          js_get (JObj (topLevelDeps st')) k = js_get (JObj (topLevelDeps st)) k"
    unfolding scan_extends_def by blast
  from c have c': "packageCache st' q = Some child" unfolding st' by simp
  have f: "(\<forall>m i. packageCache st m = Some i \<longrightarrow> info_packageDir i = path_dirname m) \<longrightarrow>
          info_packageDir child = path_dirname q"
    using collect_cache_dirs[OF run] c' unfolding cache_dirs_def by blast
  from sub c c' a b c3 d e f show ?thesis
    by (intro exI[of _ infos] exI[of _ before] exI[of _ child] conjI)
qed

theorem dependency_edge_classified_witness:
  "(\<exists>info st'. collectDepPackageInfo (Suc 2) nested_host ''/proj'' ''/proj/node_modules/a/package.json''
        ''dependencies'' initial_state = Some (Inr (info, st'))
      \<and> nested_record (pick_record info) ''c'' = Some leaf_record
      \<and> map_of (topLevelDeps st') ''c'' = None)
   \<and> (\<exists>info st'. collectDepPackageInfo (Suc 2) shared_c_host ''/proj'' ''/proj/node_modules/a/package.json''
        ''dependencies'' initial_state = Some (Inr (info, st'))
      \<and> map_of (topLevelDeps st') ''c'' = Some leaf_record
      \<and> nested_record (pick_record info) ''c'' = None)
   \<and> (\<exists>info st'. collectDepPackageInfo (Suc 1) shared_c_host ''/proj'' ''/proj/node_modules/b/package.json''
        ''dependencies'' claimed_c = Some (Inr (info, st'))
      \<and> map_of (topLevelDeps st') ''c'' = Some leaf_record
      \<and> nested_record (pick_record info) ''c'' = Some leaf_record)"
proof -
  note cls = dependency_edge_classified
  have names: "distinct (map fst (js_entries (js_get manifest_a ''dependencies'')))"
    "distinct (map fst (js_entries (js_get manifest_b ''dependencies'')))"
    by (simp_all add: manifest_a_def manifest_b_def)
  have dep: "''c'' \<in> fst ` set (js_entries (js_get manifest_a ''dependencies''))"
    "''c'' \<in> fst ` set (js_entries (js_get manifest_b ''dependencies''))"
    by (simp_all add: manifest_a_def manifest_b_def)
  have res: "resolveFrom nested_host (path_dirname ''/proj/node_modules/a/package.json'')
               (''c'' @ ''/package.json'') = Some ''/proj/node_modules/a/node_modules/c/package.json''"
    "resolveFrom shared_c_host (path_dirname ''/proj/node_modules/a/package.json'')
               (''c'' @ ''/package.json'') = Some ''/proj/node_modules/c/package.json''"
    "resolveFrom shared_c_host (path_dirname ''/proj/node_modules/b/package.json'')
               (''c'' @ ''/package.json'') = Some ''/proj/node_modules/c/package.json''"
    by (simp_all add: nested_host_def nested_resolve_def shared_c_host_def hoisted_resolve_def
          example_dirs)
  have 1: "\<exists>info st'. collectDepPackageInfo (Suc 2) nested_host ''/proj'' ''/proj/node_modules/a/package.json''
        ''dependencies'' initial_state = Some (Inr (info, st'))
      \<and> nested_record (pick_record info) ''c'' = Some leaf_record
      \<and> map_of (topLevelDeps st') ''c'' = None"
  proof -
    from nested_a_run obtain info st' where
      run: "collectDepPackageInfo (Suc 2) nested_host ''/proj'' ''/proj/node_modules/a/package.json''
        ''dependencies'' initial_state = Some (Inr (info, st'))"
      and cache: "packageCache st' ''/proj/node_modules/a/node_modules/c/package.json''
        = Some (leaf_info ''/proj/node_modules/a/node_modules/c'')"
      by (cases "collectDepPackageInfo (Suc 2) nested_host ''/proj'' ''/proj/node_modules/a/package.json''
        ''dependencies'' initial_state") (auto simp: map_sum_def split: sum.splits)
    from cls[OF run example_manifests(1) names(1) dep(1) res(1)]
    obtain infos before child where
      sub: "mapS (\<lambda>d. getDepPackageInfo 2 nested_host ''/proj''
                 (path_dirname ''/proj/node_modules/a/package.json'') d ''dependencies'')
        (map fst (js_entries (js_get manifest_a ''dependencies'')))
        (initial_state\<lparr>required := required initial_state @ [''/proj/node_modules/a/package.json'']\<rparr>)
        = Some (Inr (infos, before))"
      and child: "packageCache st' ''/proj/node_modules/a/node_modules/c/package.json'' = Some child"
      and cl: "prefix (path_dirname ''/proj/node_modules/a/package.json'') (info_packageDir child) \<longrightarrow>
          nested_record (pick_record info) ''c'' = Some (pick_record child)
          \<and> map_of (topLevelDeps st') ''c'' = map_of (topLevelDeps before) ''c''"
      by (elim exE conjE)
    from nested_a_sub sub have top: "topLevelDeps before = []" by simp
    from child cache have leaf: "child = leaf_info ''/proj/node_modules/a/node_modules/c''" by simp
    from cl have "nested_record (pick_record info) ''c'' = Some leaf_record
      \<and> map_of (topLevelDeps st') ''c'' = None"
      unfolding leaf top
      by (simp add: example_dirs leaf_info_def pick_leaf[unfolded leaf_info_def])
    with run show ?thesis by blast
  qed
  have 2: "\<exists>info st'. collectDepPackageInfo (Suc 2) shared_c_host ''/proj'' ''/proj/node_modules/a/package.json''
        ''dependencies'' initial_state = Some (Inr (info, st'))
      \<and> map_of (topLevelDeps st') ''c'' = Some leaf_record
      \<and> nested_record (pick_record info) ''c'' = None"
  proof -
    from shared_a_run obtain info st' where
      run: "collectDepPackageInfo (Suc 2) shared_c_host ''/proj'' ''/proj/node_modules/a/package.json''
        ''dependencies'' initial_state = Some (Inr (info, st'))"
      and cache: "packageCache st' ''/proj/node_modules/c/package.json''
        = Some (leaf_info ''/proj/node_modules/c'')"
      by (cases "collectDepPackageInfo (Suc 2) shared_c_host ''/proj'' ''/proj/node_modules/a/package.json''
        ''dependencies'' initial_state") (auto simp: map_sum_def split: sum.splits)
    from cls[OF run example_manifests(2) names(1) dep(1) res(2)]
    obtain infos before child where
      sub: "mapS (\<lambda>d. getDepPackageInfo 2 shared_c_host ''/proj''
                 (path_dirname ''/proj/node_modules/a/package.json'') d ''dependencies'')
        (map fst (js_entries (js_get manifest_a ''dependencies'')))
        (initial_state\<lparr>required := required initial_state @ [''/proj/node_modules/a/package.json'']\<rparr>)
        = Some (Inr (infos, before))"
      and child: "packageCache st' ''/proj/node_modules/c/package.json'' = Some child"
      and cl: "\<not> prefix (path_dirname ''/proj/node_modules/a/package.json'') (info_packageDir child)
          \<and> isTopLevelDep ''/proj'' (info_packageDir child)
          \<and> \<not> has_prop (JObj (topLevelDeps before)) ''c''
          \<and> ''c'' \<notin> set OBJECT_PROTOTYPE_MEMBERS \<longrightarrow>
          map_of (topLevelDeps st') ''c'' = Some (pick_record child)
          \<and> nested_record (pick_record info) ''c'' = None"
      by (elim exE conjE)
    from shared_a_sub sub have top: "topLevelDeps before = []" by simp
    from child cache have leaf: "child = leaf_info ''/proj/node_modules/c''" by simp
    from cl have "map_of (topLevelDeps st') ''c'' = Some leaf_record
      \<and> nested_record (pick_record info) ''c'' = None"
      unfolding leaf top
      by (simp add: example_dirs leaf_info_def pick_leaf[unfolded leaf_info_def] has_prop_def isTopLevelDep_def
            OBJECT_PROTOTYPE_MEMBERS_def)
    with run show ?thesis by blast
  qed
  have 3: "\<exists>info st'. collectDepPackageInfo (Suc 1) shared_c_host ''/proj'' ''/proj/node_modules/b/package.json''
        ''dependencies'' claimed_c = Some (Inr (info, st'))
      \<and> map_of (topLevelDeps st') ''c'' = Some leaf_record
      \<and> nested_record (pick_record info) ''c'' = Some leaf_record"
  proof -
    from shared_b_run obtain info st' where
      run: "collectDepPackageInfo (Suc 1) shared_c_host ''/proj'' ''/proj/node_modules/b/package.json''
        ''dependencies'' claimed_c = Some (Inr (info, st'))"
      and cache: "packageCache st' ''/proj/node_modules/c/package.json''
        = Some (leaf_info ''/proj/node_modules/c'')"
      by (cases "collectDepPackageInfo (Suc 1) shared_c_host ''/proj'' ''/proj/node_modules/b/package.json''
        ''dependencies'' claimed_c") (auto simp: map_sum_def split: sum.splits)
    from cls[OF run example_manifests(3) names(2) dep(2) res(3)]
    obtain infos before child where
      sub: "mapS (\<lambda>d. getDepPackageInfo 1 shared_c_host ''/proj''
                 (path_dirname ''/proj/node_modules/b/package.json'') d ''dependencies'')
        (map fst (js_entries (js_get manifest_b ''dependencies'')))
        (claimed_c\<lparr>required := required claimed_c @ [''/proj/node_modules/b/package.json'']\<rparr>)
        = Some (Inr (infos, before))"
      and child: "packageCache st' ''/proj/node_modules/c/package.json'' = Some child"
      and cl: "\<not> prefix (path_dirname ''/proj/node_modules/b/package.json'') (info_packageDir child)
          \<and> (truthy (js_get (JObj (topLevelDeps before)) ''c'')
               \<or> \<not> isTopLevelDep ''/proj'' (info_packageDir child)) \<longrightarrow>
          map_of (topLevelDeps st') ''c'' = map_of (topLevelDeps before) ''c''
          \<and> nested_record (pick_record info) ''c'' =
              (if prefix ''/proj'' (info_packageDir child) then Some (pick_record child) else None)"
      by (elim exE conjE)
    from shared_b_sub sub have top: "topLevelDeps before = [(''c'', leaf_record)]" by simp
    from child cache have leaf: "child = leaf_info ''/proj/node_modules/c''" by simp
    from cl have "map_of (topLevelDeps st') ''c'' = Some leaf_record
      \<and> nested_record (pick_record info) ''c'' = Some leaf_record"
      unfolding leaf top
      by (simp add: example_dirs leaf_info_def pick_leaf[unfolded leaf_info_def] leaf_record_def)
    with run show ?thesis by blast
  qed
  from 1 2 3 show ?thesis by (intro conjI)
qed

text \<open>
  C5.  When two packages depend on a package whose name resolves to the same manifest
  path, that manifest is resolved once, and every place of the resulting tree that refers
  to it carries the same content.  In every scan that returns, no path occurs twice in the
  trace of the manifests loaded by \<^verbatim>\<open>collectDepPackageInfo\<close>, and the loaded paths are
  exactly the cached ones.  Every record of the tree is the projection (\<open>pick_record\<close>) of
  the cached record of the path that its name resolves to: a top-level record for some
  directory, a record under the \<^verbatim>\<open>dependencies\<close> of the package at \<open>p\<close> for the directory
  of \<open>p\<close>.  So the records that two packages hold for a name that resolves to the same
  path from both are equal, and when a name resolves to one path from every directory,
  every record of that name in the tree, at top level or nested, is the projection of the
  one record cached for that path.  Outside of whole scans: a request for a path that is
  already cached returns the cached record and changes nothing, every request leaves its
  result in the cache under the resolved path, and no cache entry is ever replaced.
\<close>

theorem shared_package_resolved_once:
  "(scan_run n h = Some (Inr st) \<longrightarrow>
      distinct (required st) \<and> set (required st) = dom (packageCache st)
      \<and> (\<forall>name r. map_of (topLevelDeps st) name = Some r \<longrightarrow>
           (\<exists>dir q child. resolveFrom h dir (name @ ''/package.json'') = Some q
              \<and> packageCache st q = Some child \<and> r = pick_record child))
      \<and> (\<forall>p i name r. packageCache st p = Some i \<and> nested_record (pick_record i) name = Some r \<longrightarrow>
           (\<exists>q child. resolveFrom h (path_dirname p) (name @ ''/package.json'') = Some q
              \<and> packageCache st q = Some child \<and> r = pick_record child))
      \<and> (\<forall>pa ia pb ib name q ra rb.
           packageCache st pa = Some ia \<and> packageCache st pb = Some ib
           \<and> resolveFrom h (path_dirname pa) (name @ ''/package.json'') = Some q
           \<and> resolveFrom h (path_dirname pb) (name @ ''/package.json'') = Some q
           \<and> nested_record (pick_record ia) name = Some ra
           \<and> nested_record (pick_record ib) name = Some rb \<longrightarrow> ra = rb)
      \<and> (\<forall>name q r.
           (\<forall>dir q'. resolveFrom h dir (name @ ''/package.json'') = Some q' \<longrightarrow> q' = q)
           \<and> (map_of (topLevelDeps st) name = Some r
              \<or> (\<exists>p i. packageCache st p = Some i \<and> nested_record (pick_record i) name = Some r)) \<longrightarrow>
           (\<exists>child. packageCache st q = Some child \<and> r = pick_record child)))
   \<and> (resolveFrom h dir (name @ ''/package.json'') = Some p \<and> packageCache s p = Some info \<longrightarrow>
      getDepPackageInfo (Suc m) h packageDir dir name depsProp s = Some (Inr (info, s)))
   \<and> (getDepPackageInfo k h packageDir dir' name' depsProp' s1 = Some (Inr (info', s2)) \<longrightarrow>
      (\<exists>p'. resolveFrom h dir' (name' @ ''/package.json'') = Some p' \<and> packageCache s2 p' = Some info')
      \<and> (\<forall>q j. packageCache s1 q = Some j \<longrightarrow> packageCache s2 q = Some j))"
proof (intro conjI impI)
  assume run: "scan_run n h = Some (Inr st)"
  from scan_run_loaded[OF run]
  show "distinct (required st)" and "set (required st) = dom (packageCache st)"
    by (simp_all add: scan_loaded_def)
  from scan_run_provenance[OF run]
  have topl: "\<forall>name r. map_of (topLevelDeps st) name = Some r \<longrightarrow>
           (\<exists>dir q child. resolveFrom h dir (name @ ''/package.json'') = Some q
              \<and> packageCache st q = Some child \<and> r = pick_record child)"
    and nest: "\<forall>p i name r. packageCache st p = Some i \<and> nested_record (pick_record i) name = Some r \<longrightarrow>
           (\<exists>q child. resolveFrom h (path_dirname p) (name @ ''/package.json'') = Some q
              \<and> packageCache st q = Some child \<and> r = pick_record child)"
    unfolding scan_provenance_def by blast+
  from topl show "\<forall>name r. map_of (topLevelDeps st) name = Some r \<longrightarrow>
           (\<exists>dir q child. resolveFrom h dir (name @ ''/package.json'') = Some q
              \<and> packageCache st q = Some child \<and> r = pick_record child)" .
  from nest show "\<forall>p i name r. packageCache st p = Some i \<and> nested_record (pick_record i) name = Some r \<longrightarrow>
           (\<exists>q child. resolveFrom h (path_dirname p) (name @ ''/package.json'') = Some q
              \<and> packageCache st q = Some child \<and> r = pick_record child)" .
  show "\<forall>pa ia pb ib name q ra rb.
           packageCache st pa = Some ia \<and> packageCache st pb = Some ib
           \<and> resolveFrom h (path_dirname pa) (name @ ''/package.json'') = Some q
           \<and> resolveFrom h (path_dirname pb) (name @ ''/package.json'') = Some q
           \<and> nested_record (pick_record ia) name = Some ra
           \<and> nested_record (pick_record ib) name = Some rb \<longrightarrow> ra = rb"
  proof (intro allI impI)
    fix pa ia pb ib name q ra rb
    assume a: "packageCache st pa = Some ia \<and> packageCache st pb = Some ib
           \<and> resolveFrom h (path_dirname pa) (name @ ''/package.json'') = Some q
           \<and> resolveFrom h (path_dirname pb) (name @ ''/package.json'') = Some q
           \<and> nested_record (pick_record ia) name = Some ra
           \<and> nested_record (pick_record ib) name = Some rb"
    from nest a obtain qa ca where "resolveFrom h (path_dirname pa) (name @ ''/package.json'') = Some qa"
      "packageCache st qa = Some ca" "ra = pick_record ca" by blast
    moreover from nest a obtain qb cb where "resolveFrom h (path_dirname pb) (name @ ''/package.json'') = Some qb"
      "packageCache st qb = Some cb" "rb = pick_record cb" by blast
    ultimately show "ra = rb" using a by simp
  qed
  show "\<forall>name q r.
           (\<forall>dir q'. resolveFrom h dir (name @ ''/package.json'') = Some q' \<longrightarrow> q' = q)
           \<and> (map_of (topLevelDeps st) name = Some r
              \<or> (\<exists>p i. packageCache st p = Some i \<and> nested_record (pick_record i) name = Some r)) \<longrightarrow>
           (\<exists>child. packageCache st q = Some child \<and> r = pick_record child)"
  proof (intro allI impI)
    fix name q r
    assume a: "(\<forall>dir q'. resolveFrom h dir (name @ ''/package.json'') = Some q' \<longrightarrow> q' = q)
           \<and> (map_of (topLevelDeps st) name = Some r
              \<or> (\<exists>p i. packageCache st p = Some i \<and> nested_record (pick_record i) name = Some r))"
    then have "\<exists>dir q' child. resolveFrom h dir (name @ ''/package.json'') = Some q'
              \<and> packageCache st q' = Some child \<and> r = pick_record child"
      using topl nest by blast
    with a show "\<exists>child. packageCache st q = Some child \<and> r = pick_record child" by blast
  qed
next
  assume "resolveFrom h dir (name @ ''/package.json'') = Some p \<and> packageCache s p = Some info"
  then show "getDepPackageInfo (Suc m) h packageDir dir name depsProp s = Some (Inr (info, s))"
    by (simp add: getDep_cache_hit)
next
  assume r: "getDepPackageInfo k h packageDir dir' name' depsProp' s1 = Some (Inr (info', s2))"
  from getDep_cached_after[OF r]
  show "\<exists>p'. resolveFrom h dir' (name' @ ''/package.json'') = Some p' \<and> packageCache s2 p' = Some info'"
    and "\<forall>q j. packageCache s1 q = Some j \<longrightarrow> packageCache s2 q = Some j"
    by simp_all
qed

theorem shared_package_resolved_once_witness:
  "(\<exists>st. scan_run 6 diamond_host = Some (Inr st)
      \<and> required st = [''/proj/node_modules/app/package.json'', ''/proj/node_modules/a/package.json'',
           ''/proj/node_modules/c/package.json'', ''/proj/node_modules/b/package.json'']
      \<and> distinct (required st) \<and> set (required st) = dom (packageCache st)
      \<and> (\<exists>child. packageCache st ''/proj/node_modules/c/package.json'' = Some child
           \<and> map_of (topLevelDeps st) ''c'' = Some (pick_record child)
           \<and> map_option (\<lambda>i. nested_record (pick_record i) ''c'')
               (packageCache st ''/proj/node_modules/b/package.json'') = Some (Some (pick_record child))
           \<and> pick_record child = leaf_record)
      \<and> (\<exists>parent. packageCache st ''/proj/node_modules/a/package.json'' = Some parent
           \<and> map_of (topLevelDeps st) ''a'' = Some (pick_record parent)
           \<and> js_get (pick_record parent) ''version'' = JStr ''1.1.0''))
   \<and> getDepPackageInfo (Suc 0) shared_c_host ''/proj'' ''/proj/node_modules/b'' ''c'' ''dependencies''
        cached_c = Some (Inr (leaf_info ''/proj/node_modules/c'', cached_c))
   \<and> (\<exists>info s2. getDepPackageInfo 2 shared_c_host ''/proj'' ''/proj/node_modules/a'' ''c''
        ''dependencies'' initial_state = Some (Inr (info, s2))
      \<and> packageCache s2 ''/proj/node_modules/c/package.json'' = Some info)"
proof -
  note once = shared_package_resolved_once
  from diamond_run obtain st where run: "scan_run 6 diamond_host = Some (Inr st)"
    and req: "required st = [''/proj/node_modules/app/package.json'', ''/proj/node_modules/a/package.json'',
           ''/proj/node_modules/c/package.json'', ''/proj/node_modules/b/package.json'']"
    and tops: "topLevelDeps st =
                [(''c'', leaf_record), (''a'', JObj [(''version'', JStr ''1.1.0''),
                      (''requires'', JObj [(''c'', JStr ''1.3.0'')]),
                      (''integrity'', JStr ''sha1-a'')]),
                 (''b'', JObj [(''version'', JStr ''1.2.0''),
                      (''requires'', JObj [(''c'', JStr ''1.3.0'')]),
                      (''integrity'', JStr ''sha1-b''),
                      (''dependencies'', JObj [(''c'', leaf_record)])])]"
    and nested: "map_option (\<lambda>i. nested_record (pick_record i) ''c'')
               (packageCache st ''/proj/node_modules/b/package.json'') = Some (Some leaf_record)"
    by (cases "scan_run 6 diamond_host") (auto simp: map_sum_def split: sum.splits)
  from tops have top: "map_of (topLevelDeps st) ''c'' = Some leaf_record" by simp
  from tops have top_a: "map_of (topLevelDeps st) ''a'' = Some (JObj [(''version'', JStr ''1.1.0''),
                      (''requires'', JObj [(''c'', JStr ''1.3.0'')]),
                      (''integrity'', JStr ''sha1-a'')])" by simp
  note scan = once[where n = 6 and h = diamond_host and st = st, THEN conjunct1, THEN mp, OF run]
  from scan[THEN conjunct1] scan[THEN conjunct2, THEN conjunct1]
  have 1: "distinct (required st) \<and> set (required st) = dom (packageCache st)" by simp
  have same: "\<forall>dir q'. resolveFrom diamond_host dir (''c'' @ ''/package.json'') = Some q'
                \<longrightarrow> q' = ''/proj/node_modules/c/package.json''"
    by (auto simp: diamond_host_def hoisted_resolve_def)
  note everywhere = scan[THEN conjunct2, THEN conjunct2, THEN conjunct2, THEN conjunct2, THEN conjunct2]
  from everywhere[THEN spec, THEN spec, THEN spec, of "''c''" "''/proj/node_modules/c/package.json''" leaf_record]
    same top obtain child where child: "packageCache st ''/proj/node_modules/c/package.json'' = Some child"
    "leaf_record = pick_record child" by blast
  with top nested have tree: "\<exists>child. packageCache st ''/proj/node_modules/c/package.json'' = Some child
           \<and> map_of (topLevelDeps st) ''c'' = Some (pick_record child)
           \<and> map_option (\<lambda>i. nested_record (pick_record i) ''c'')
               (packageCache st ''/proj/node_modules/b/package.json'') = Some (Some (pick_record child))
           \<and> pick_record child = leaf_record"
    by auto
  have same_a: "\<forall>dir q'. resolveFrom diamond_host dir (''a'' @ ''/package.json'') = Some q'
                \<longrightarrow> q' = ''/proj/node_modules/a/package.json''"
    by (auto simp: diamond_host_def hoisted_resolve_def)
  from everywhere[THEN spec, THEN spec, THEN spec, of "''a''" "''/proj/node_modules/a/package.json''"
      "JObj [(''version'', JStr ''1.1.0''), (''requires'', JObj [(''c'', JStr ''1.3.0'')]),
             (''integrity'', JStr ''sha1-a'')]"]
    same_a top_a obtain parent where parent: "packageCache st ''/proj/node_modules/a/package.json'' = Some parent"
    "JObj [(''version'', JStr ''1.1.0''), (''requires'', JObj [(''c'', JStr ''1.3.0'')]),
             (''integrity'', JStr ''sha1-a'')] = pick_record parent" by blast
  from parent(2)[symmetric] have "js_get (pick_record parent) ''version'' = JStr ''1.1.0''" by simp
  with parent top_a have tree_a: "\<exists>parent. packageCache st ''/proj/node_modules/a/package.json'' = Some parent
           \<and> map_of (topLevelDeps st) ''a'' = Some (pick_record parent)
           \<and> js_get (pick_record parent) ''version'' = JStr ''1.1.0''"
    by auto
  have res: "resolveFrom shared_c_host ''/proj/node_modules/b'' (''c'' @ ''/package.json'')
               = Some ''/proj/node_modules/c/package.json''"
    "resolveFrom shared_c_host ''/proj/node_modules/a'' (''c'' @ ''/package.json'')
               = Some ''/proj/node_modules/c/package.json''"
    by (simp_all add: requireJson_def shared_c_host_def hoisted_resolve_def)
  have hit: "packageCache cached_c ''/proj/node_modules/c/package.json''
               = Some (leaf_info ''/proj/node_modules/c'')"
    by (simp add: cached_c_def)
  from once[where h = shared_c_host and dir = "''/proj/node_modules/b''" and name = "''c''"
      and p = "''/proj/node_modules/c/package.json''" and s = cached_c
      and info = "leaf_info ''/proj/node_modules/c''" and m = 0 and packageDir = "''/proj''"
      and depsProp = "''dependencies''", THEN conjunct2, THEN conjunct1] res(1) hit
  have 2: "getDepPackageInfo (Suc 0) shared_c_host ''/proj'' ''/proj/node_modules/b'' ''c'' ''dependencies''
        cached_c = Some (Inr (leaf_info ''/proj/node_modules/c'', cached_c))"
    by blast
  obtain info s2 where r: "getDepPackageInfo 2 shared_c_host ''/proj'' ''/proj/node_modules/a'' ''c''
        ''dependencies'' initial_state = Some (Inr (info, s2))"
    by (simp add: requireJson_def shared_c_host_def shared_c_files_def hoisted_resolve_def eval_nat_numeral
          initial_state_def)
  from once[where h = shared_c_host and k = 2 and packageDir = "''/proj''"
      and dir' = "''/proj/node_modules/a''" and name' = "''c''" and depsProp' = "''dependencies''"
      and ?s1.0 = initial_state and info' = info and ?s2.0 = s2,
      THEN conjunct2, THEN conjunct2] r res(2)
  have 3: "packageCache s2 ''/proj/node_modules/c/package.json'' = Some info" by auto
  from run req 1 tree tree_a 2 r 3 show ?thesis by blast
qed

text \<open>
  C6.  All production dependencies of the project are resolved before the resolution of
  any development dependency begins, and a package keeps the marking of its first
  resolution.  Every scan that returns is the production phase, run from the initial state
  with the phase flag off and ending in a state \<open>st1\<close>, followed by the development phase
  run from \<open>st1\<close> with the flag on; the manifests loaded in the production phase come
  first in the trace of loads.  Every package cached in the production phase is still
  cached with the same record at the end, and that record is not marked \<^verbatim>\<open>dev\<close>; every
  package cached only in the development phase is marked \<^verbatim>\<open>dev\<close>.  Every record of the
  resulting tree, at top level or under the \<^verbatim>\<open>dependencies\<close> of a package, is the
  projection of the cached record of the path that its name resolves to, and it has a
  \<^verbatim>\<open>dev\<close> field exactly when that path was not yet cached at the end of the production
  phase.  In particular the record of a package required by a production and by a
  development dependency has no \<^verbatim>\<open>dev\<close> field, wherever it appears.
\<close>

theorem production_resolved_before_development:
  assumes "scan_run n h = Some (Inr st)"
  shows "\<exists>packageJson st1.
      requireJson h (path_resolve (cwd h) ''package.json'') = Some packageJson
      \<and> forEachDep n h (path_dirname (path_resolve (cwd h) ''package.json''))
          (js_get packageJson ''dependencies'') initial_state = Some (Inr st1)
      \<and> \<not> devFlag st1
      \<and> forEachDep n h (path_dirname (path_resolve (cwd h) ''package.json''))
          (js_get packageJson ''devDependencies'') (st1\<lparr>devFlag := True\<rparr>) = Some (Inr st)
      \<and> prefix (required st1) (required st)
      \<and> (\<forall>p i. packageCache st1 p = Some i \<longrightarrow>
            packageCache st p = Some i \<and> \<not> info_dev i \<and> \<not> has_prop (pick_record i) ''dev'')
      \<and> (\<forall>p i. packageCache st p = Some i \<and> packageCache st1 p = None \<longrightarrow> info_dev i)
      \<and> (\<forall>name r. map_of (topLevelDeps st) name = Some r \<longrightarrow>
           (\<exists>dir q child. resolveFrom h dir (name @ ''/package.json'') = Some q
              \<and> packageCache st q = Some child \<and> r = pick_record child
              \<and> (has_prop r ''dev'' \<longleftrightarrow> packageCache st1 q = None)))
      \<and> (\<forall>p i name r. packageCache st p = Some i \<and> nested_record (pick_record i) name = Some r \<longrightarrow>
           (\<exists>q child. resolveFrom h (path_dirname p) (name @ ''/package.json'') = Some q
              \<and> packageCache st q = Some child \<and> r = pick_record child
              \<and> (has_prop r ''dev'' \<longleftrightarrow> packageCache st1 q = None)))"
  using assms
proof (cases rule: scan_run_success)
  case (1 packageJson st1)
  from forEachDep_extends[OF 1(2)] have e1: "scan_extends initial_state st1" .
  from forEachDep_extends[OF 1(3)] have e2: "scan_extends (st1\<lparr>devFlag := True\<rparr>) st" .
  from e1 have flag: "\<not> devFlag st1" by (simp add: scan_extends_def initial_state_def)
  from e1 have prod: "\<not> info_dev i" if "packageCache st1 p = Some i" for p i
    using that by (auto simp: scan_extends_def initial_state_def)
  from e2 have kept: "packageCache st p = Some i" if "packageCache st1 p = Some i" for p i
    using that by (simp add: scan_extends_def)
  from e2 have pre: "prefix (required st1) (required st)" by (simp add: scan_extends_def)
  from e2 have "\<forall>p i. packageCache st p = Some i \<longrightarrow> packageCache st1 p = Some i \<or> info_dev i"
    unfolding scan_extends_def by simp
  then have dev: "info_dev i" if "packageCache st p = Some i" "packageCache st1 p = None" for p i
    using that by fastforce
  have first: "\<forall>p i. packageCache st1 p = Some i \<longrightarrow>
            packageCache st p = Some i \<and> \<not> info_dev i \<and> \<not> has_prop (pick_record i) ''dev''"
    using prod kept by (simp add: has_prop_pick_record_dev)
  have later: "\<forall>p i. packageCache st p = Some i \<and> packageCache st1 p = None \<longrightarrow> info_dev i"
    using dev by blast
  have mark: "has_prop (pick_record child) ''dev'' \<longleftrightarrow> packageCache st1 q = None"
    if c: "packageCache st q = Some child" for q child
  proof (cases "packageCache st1 q")
    case None
    with dev[OF c] show ?thesis by (simp add: has_prop_pick_record_dev)
  next
    case (Some c1)
    from kept[OF Some] c have "c1 = child" by simp
    with prod[OF Some] Some show ?thesis by (simp add: has_prop_pick_record_dev)
  qed
  from scan_run_provenance[OF assms]
  have topl: "\<forall>name r. map_of (topLevelDeps st) name = Some r \<longrightarrow>
           (\<exists>dir q child. resolveFrom h dir (name @ ''/package.json'') = Some q
              \<and> packageCache st q = Some child \<and> r = pick_record child)"
    and nest: "\<forall>p i name r. packageCache st p = Some i \<and> nested_record (pick_record i) name = Some r \<longrightarrow>
           (\<exists>q child. resolveFrom h (path_dirname p) (name @ ''/package.json'') = Some q
              \<and> packageCache st q = Some child \<and> r = pick_record child)"
    unfolding scan_provenance_def by blast+
  have topl': "\<forall>name r. map_of (topLevelDeps st) name = Some r \<longrightarrow>
           (\<exists>dir q child. resolveFrom h dir (name @ ''/package.json'') = Some q
              \<and> packageCache st q = Some child \<and> r = pick_record child
              \<and> (has_prop r ''dev'' \<longleftrightarrow> packageCache st1 q = None))"
  proof (intro allI impI)
    fix name r
    assume "map_of (topLevelDeps st) name = Some r"
    with topl obtain dir q child where a: "resolveFrom h dir (name @ ''/package.json'') = Some q"
      and b: "packageCache st q = Some child" and c: "r = pick_record child" by blast
    from mark[OF b] c have "has_prop r ''dev'' \<longleftrightarrow> packageCache st1 q = None" by simp
    with a b c show "\<exists>dir q child. resolveFrom h dir (name @ ''/package.json'') = Some q
              \<and> packageCache st q = Some child \<and> r = pick_record child
              \<and> (has_prop r ''dev'' \<longleftrightarrow> packageCache st1 q = None)"
      by (intro exI[of _ dir] exI[of _ q] exI[of _ child]) simp
  qed
  have nest': "\<forall>p i name r. packageCache st p = Some i \<and> nested_record (pick_record i) name = Some r \<longrightarrow>
           (\<exists>q child. resolveFrom h (path_dirname p) (name @ ''/package.json'') = Some q
              \<and> packageCache st q = Some child \<and> r = pick_record child
              \<and> (has_prop r ''dev'' \<longleftrightarrow> packageCache st1 q = None))"
  proof (intro allI impI)
    fix p i name r
    assume "packageCache st p = Some i \<and> nested_record (pick_record i) name = Some r"
    with nest obtain q child where a: "resolveFrom h (path_dirname p) (name @ ''/package.json'') = Some q"
      and b: "packageCache st q = Some child" and c: "r = pick_record child" by blast
    from mark[OF b] c have "has_prop r ''dev'' \<longleftrightarrow> packageCache st1 q = None" by simp
    with a b c show "\<exists>q child. resolveFrom h (path_dirname p) (name @ ''/package.json'') = Some q
              \<and> packageCache st q = Some child \<and> r = pick_record child
              \<and> (has_prop r ''dev'' \<longleftrightarrow> packageCache st1 q = None)"
      by (intro exI[of _ q] exI[of _ child]) simp
  qed
  from 1 flag pre first later topl' nest' show ?thesis
    by (intro exI[of _ packageJson] exI[of _ st1] conjI)
qed

theorem production_resolved_before_development_witness:
  "\<exists>st. scan_run 4 dev_prod_host = Some (Inr st)
     \<and> topLevelDeps st =
         [(''d'', JObj [(''version'', JStr ''3.0.0''), (''integrity'', JStr ''sha1-d'')]),
          (''e'', JObj [(''version'', JStr ''4.0.0''), (''dev'', JBool True),
                        (''integrity'', JStr ''sha1-e'')])]
     \<and> map_option (\<lambda>i. nested_record (pick_record i) ''d'')
           (packageCache st ''/proj/node_modules/q/package.json'')
         = Some (Some (JObj [(''version'', JStr ''3.0.0''), (''integrity'', JStr ''sha1-d'')]))
     \<and> (\<exists>packageJson st1.
      requireJson dev_prod_host (path_resolve (cwd dev_prod_host) ''package.json'') = Some packageJson
      \<and> forEachDep 4 dev_prod_host (path_dirname (path_resolve (cwd dev_prod_host) ''package.json''))
          (js_get packageJson ''dependencies'') initial_state = Some (Inr st1)
      \<and> \<not> devFlag st1
      \<and> forEachDep 4 dev_prod_host (path_dirname (path_resolve (cwd dev_prod_host) ''package.json''))
          (js_get packageJson ''devDependencies'') (st1\<lparr>devFlag := True\<rparr>) = Some (Inr st)
      \<and> prefix (required st1) (required st)
      \<and> (\<forall>p i. packageCache st1 p = Some i \<longrightarrow>
            packageCache st p = Some i \<and> \<not> info_dev i \<and> \<not> has_prop (pick_record i) ''dev'')
      \<and> (\<forall>p i. packageCache st p = Some i \<and> packageCache st1 p = None \<longrightarrow> info_dev i)
      \<and> (\<forall>name r. map_of (topLevelDeps st) name = Some r \<longrightarrow>
           (\<exists>dir q child. resolveFrom dev_prod_host dir (name @ ''/package.json'') = Some q
              \<and> packageCache st q = Some child \<and> r = pick_record child
              \<and> (has_prop r ''dev'' \<longleftrightarrow> packageCache st1 q = None)))
      \<and> (\<forall>p i name r. packageCache st p = Some i \<and> nested_record (pick_record i) name = Some r \<longrightarrow>
           (\<exists>q child. resolveFrom dev_prod_host (path_dirname p) (name @ ''/package.json'') = Some q
              \<and> packageCache st q = Some child \<and> r = pick_record child
              \<and> (has_prop r ''dev'' \<longleftrightarrow> packageCache st1 q = None))))"
proof -
  from dev_prod_run_tree obtain st where run: "scan_run 4 dev_prod_host = Some (Inr st)"
    and top: "topLevelDeps st =
         [(''d'', JObj [(''version'', JStr ''3.0.0''), (''integrity'', JStr ''sha1-d'')]),
          (''e'', JObj [(''version'', JStr ''4.0.0''), (''dev'', JBool True),
                        (''integrity'', JStr ''sha1-e'')])]"
    and nested: "map_option (\<lambda>i. nested_record (pick_record i) ''d'')
           (packageCache st ''/proj/node_modules/q/package.json'')
         = Some (Some (JObj [(''version'', JStr ''3.0.0''), (''integrity'', JStr ''sha1-d'')]))"
    by (cases "scan_run 4 dev_prod_host") (auto simp: map_sum_def split: sum.splits)
  from production_resolved_before_development[OF run] run top nested show ?thesis
    by (intro exI[of _ st] conjI)
qed

text \<open>
  C8.  Every record in a tree that the system hands off, at every depth, has no field
  outside \<^verbatim>\<open>version\<close>, \<^verbatim>\<open>dev\<close>, \<^verbatim>\<open>requires\<close>, \<^verbatim>\<open>integrity\<close>, \<^verbatim>\<open>dependencies\<close>: this
  holds for the output of the tree filter, for the output of the scanner, and for the
  tree that \<^verbatim>\<open>getAllDependencies\<close> passes to the audit payload.
\<close>

theorem handed_off_trees_canonical:
  "(filterTree T = Inr R \<longrightarrow> canonical_tree R)
   \<and> (scanInstalledDependencies n h = Some (Inr Rs) \<longrightarrow> canonical_tree Rs)
   \<and> (getAllDependencies m g = Some (Inr Ra) \<longrightarrow> canonical_tree Ra)"
  using getAllDependencies_cases[of m g Ra]
  by (auto simp: filterTree_canonical scanInstalledDependencies_canonical
        getNpmLockDependencies_canonical simp del: canonical_tree.simps)

theorem handed_off_trees_canonical_witness:
  "filterTree (js_get fallback_json ''dependencies'') = Inr left_pad_tree
   \<and> canonical_tree left_pad_tree
   \<and> scanInstalledDependencies 6 diamond_host = Some (Inr diamond_tree)
   \<and> canonical_tree diamond_tree
   \<and> getAllDependencies 0 fallback_host = Some (Inr left_pad_tree)"
proof -
  note canon = handed_off_trees_canonical
  have scan: "scanInstalledDependencies 6 diamond_host = Some (Inr diamond_tree)"
    by code_simp
  have all: "getAllDependencies 0 fallback_host = Some (Inr left_pad_tree)"
    by (simp add: requireJson_def getAllDependencies_def fallback_primary getNpmLockDependencies_def
          fallback_host_def path_resolve_def path_join_def fallback_filter)
      (simp add: fallback_json_def)
  from canon[where T = "js_get fallback_json ''dependencies''" and R = left_pad_tree
      and n = 6 and h = diamond_host and Rs = diamond_tree
      and m = 0 and g = fallback_host and Ra = left_pad_tree] fallback_filter scan all
  show ?thesis by blast
qed

text \<open>
  C10.  For every installed layout (a finite list of manifests) whose manifest-to-manifest
  dependency resolution graph is acyclic, the scan terminates: there is a depth of calls
  from which on \<^verbatim>\<open>scanInstalledDependencies\<close> returns (a tree or an exception).
\<close>

theorem scan_terminates_on_acyclic_layout:
  assumes "acyclic {(p, q). dep_edge h p q}"
  shows "\<exists>N. \<forall>n\<ge>N. scanInstalledDependencies n h \<noteq> None"
proof -
  from scan_run_returns[OF dep_edge_wf[OF assms]] obtain N where "\<forall>n\<ge>N. scan_run n h \<noteq> None"
    by blast
  then have "\<forall>n\<ge>N. scanInstalledDependencies n h \<noteq> None"
    by (auto simp: scanInstalledDependencies_def split: option.splits sum.splits)
  then show ?thesis by blast
qed

theorem scan_terminates_on_acyclic_layout_witness:
  "acyclic {(p, q). dep_edge left_pad_host p q}
   \<and> (\<exists>N. \<forall>n\<ge>N. scanInstalledDependencies n left_pad_host \<noteq> None)"
proof -
  have "{(p, q). dep_edge left_pad_host p q}
          \<subseteq> {(''/proj/package.json'', ''/proj/node_modules/left-pad/package.json'')}"
    using left_pad_edges by auto
  moreover have "acyclic ({} :: (string \<times> string) set)"
    by (simp add: acyclic_def)
  then have "acyclic {(''/proj/package.json'', ''/proj/node_modules/left-pad/package.json'')}"
    by simp
  ultimately have acyc: "acyclic {(p, q). dep_edge left_pad_host p q}"
    by (metis acyclic_subset)
  from scan_terminates_on_acyclic_layout[OF acyc] acyc show ?thesis by blast
qed

section \<open>The claims about source selection and the payload\<close>

text \<open>
  C3, as stated, fails: a fallback lock file that parses does not decide the result when
  the tree filter throws on its \<^verbatim>\<open>dependencies\<close> field.  Here the primary lock file is
  missing, the fallback parses to a document with a \<^verbatim>\<open>null\<close> node, the filter throws a
  TypeError on it, and the result is the scanner's output.
\<close>

theorem fallback_filter_failure_reaches_scanner:
  "getNpmLockDependencies null_node_host ''package-lock.json'' = Inl (FileError ''package-lock.json'')
   \<and> readFile null_node_host (path_resolve (cwd null_node_host) ''npm-shrinkwrap.json'') = Some null_node_text
   \<and> jsonParse null_node_host null_node_text = Some (JObj [(''dependencies'', JObj [(''a'', JNull)])])
   \<and> filterTree (JObj [(''a'', JNull)]) = Inl TypeError
   \<and> scanInstalledDependencies 1 null_node_host = Some (Inr (JObj []))
   \<and> getAllDependencies 1 null_node_host = Some (Inr (JObj []))"
  by (simp add: requireJson_def getNpmLockDependencies_def getAllDependencies_def null_node_host_def
        path_resolve_def path_join_def filterTree.simps scanInstalledDependencies_def
        scan_run_def project_manifest_only_def forEachDep_def object_keys_def
        initial_state_def)

text \<open>
  C3, amended.  \<^verbatim>\<open>getAllDependencies\<close> tries its sources in strict order.  If the primary
  lock file parses to a document other than \<^verbatim>\<open>null\<close> on whose \<^verbatim>\<open>dependencies\<close> field the
  tree filter returns, the result is that filter output, whatever the fallback holds.  If
  loading the primary lock file fails (missing, unparsable, or the filter throws) and the
  fallback parses to a document other than \<^verbatim>\<open>null\<close> on whose \<^verbatim>\<open>dependencies\<close> field the
  tree filter returns, the result is that filter output.  If neither lock file yields a
  filtered tree, the result is the scanner's output; and if the scanner also fails, the
  operation fails with the one error whose message names both lock-file filenames.  A
  tree that is returned is always the complete output of one of the three sources.
\<close>

theorem getAllDependencies_order:
  "(readFile hp (path_resolve (cwd hp) ''package-lock.json'') = Some cp
      \<and> jsonParse hp cp = Some pp \<and> \<not> nullish pp
      \<and> filterTree (js_get pp ''dependencies'') = Inr Tp \<longrightarrow>
    getAllDependencies np hp = Some (Inr Tp))
   \<and> (getNpmLockDependencies h ''package-lock.json'' = Inl e
      \<and> readFile h (path_resolve (cwd h) ''npm-shrinkwrap.json'') = Some contents
      \<and> jsonParse h contents = Some parsed \<and> \<not> nullish parsed
      \<and> filterTree (js_get parsed ''dependencies'') = Inr T \<longrightarrow>
    getAllDependencies n h = Some (Inr T))
   \<and> (getNpmLockDependencies hs ''package-lock.json'' = Inl ep
      \<and> getNpmLockDependencies hs ''npm-shrinkwrap.json'' = Inl ef
      \<and> scanInstalledDependencies ns hs = Some (Inr Ts) \<longrightarrow>
    getAllDependencies ns hs = Some (Inr Ts))
   \<and> (getNpmLockDependencies hf ''package-lock.json'' = Inl gp
      \<and> getNpmLockDependencies hf ''npm-shrinkwrap.json'' = Inl gf
      \<and> scanInstalledDependencies nf hf = Some (Inl gs) \<longrightarrow>
    getAllDependencies nf hf =
      Some (Inl (Error (''Failed to get locked dependencies from '' @ ''package-lock.json''
                         @ '' or '' @ ''npm-shrinkwrap.json'' @ ''!''))))
   \<and> (getAllDependencies nr hr = Some (Inr Tr) \<longrightarrow>
      getNpmLockDependencies hr ''package-lock.json'' = Inr Tr
      \<or> getNpmLockDependencies hr ''npm-shrinkwrap.json'' = Inr Tr
      \<or> scanInstalledDependencies nr hr = Some (Inr Tr))"
  using getAllDependencies_cases[of nr hr Tr]
  by (auto simp: getAllDependencies_def getNpmLockDependencies_def lock_error_message_def)

theorem getAllDependencies_order_witness:
  "getAllDependencies 0 both_locks_host = Some (Inr lodash_tree)
   \<and> getNpmLockDependencies both_locks_host ''npm-shrinkwrap.json'' = Inr left_pad_tree
   \<and> lodash_tree \<noteq> left_pad_tree
   \<and> getAllDependencies 0 fallback_host = Some (Inr left_pad_tree)
   \<and> getAllDependencies 2 left_pad_host_dev = Some (Inr (JObj []))
   \<and> getAllDependencies 2 left_pad_host =
        Some (Inl (Error ''Failed to get locked dependencies from package-lock.json or npm-shrinkwrap.json!''))
   \<and> scanInstalledDependencies 2 left_pad_host_dev = Some (Inr (JObj []))"
proof -
  note ord = getAllDependencies_order
  have scans: "scanInstalledDependencies 2 left_pad_host = Some (Inl TypeError)"
    "scanInstalledDependencies 2 left_pad_host_dev = Some (Inr (JObj []))"
    by code_simp+
  have rp: "readFile both_locks_host (path_resolve (cwd both_locks_host) ''package-lock.json'') = Some audit_text"
    "jsonParse both_locks_host audit_text = Some lodash_json" "\<not> nullish lodash_json"
    by (simp_all add: both_locks_host_def path_resolve_def path_join_def lodash_json_def)
  from ord[where hp = both_locks_host and cp = audit_text and pp = lodash_json
      and Tp = lodash_tree and np = 0] rp lodash_filter
  have 0: "getAllDependencies 0 both_locks_host = Some (Inr lodash_tree)" by blast
  have ne: "lodash_tree \<noteq> left_pad_tree" by (simp add: lodash_tree_def left_pad_tree_def)
  have rd: "readFile fallback_host (path_resolve (cwd fallback_host) ''npm-shrinkwrap.json'') = Some fallback_text"
    "jsonParse fallback_host fallback_text = Some fallback_json" "\<not> nullish fallback_json"
    by (simp_all add: requireJson_def fallback_host_def path_resolve_def path_join_def fallback_json_def)
  from ord[where h = fallback_host and contents = fallback_text and parsed = fallback_json
      and T = left_pad_tree and n = 0 and e = "FileError ''package-lock.json''"]
    fallback_primary rd fallback_filter
  have 1: "getAllDependencies 0 fallback_host = Some (Inr left_pad_tree)" by blast
  from ord[where hs = left_pad_host_dev and ns = 2 and Ts = "JObj []"
      and ep = "FileError ''package-lock.json''" and ef = "FileError ''npm-shrinkwrap.json''"]
    no_lock_files(2) scans(2)
  have 2: "getAllDependencies 2 left_pad_host_dev = Some (Inr (JObj []))" by blast
  from ord[where hf = left_pad_host and nf = 2 and gs = TypeError
      and gp = "FileError ''package-lock.json''" and gf = "FileError ''npm-shrinkwrap.json''"]
    no_lock_files(1) scans(1)
  have 3: "getAllDependencies 2 left_pad_host =
        Some (Inl (Error ''Failed to get locked dependencies from package-lock.json or npm-shrinkwrap.json!''))"
    by simp
  from ord[where hr = left_pad_host_dev and nr = 2 and Tr = "JObj []"] 2 no_lock_files(2)
  have 4: "scanInstalledDependencies 2 left_pad_host_dev = Some (Inr (JObj []))" by simp
  from 0 both_locks_fallback ne 1 2 3 4 show ?thesis by simp
qed

text \<open>
  C9.  In the payload's \<^verbatim>\<open>requires\<close> map, a package name that the project's manifest
  declares under \<^verbatim>\<open>dependencies\<close> carries the production version constraint, also (and
  in particular) when the name appears under \<^verbatim>\<open>devDependencies\<close> too.  The keys of the
  \<^verbatim>\<open>dependencies\<close> object are distinct, as in every object.
\<close>

theorem getAuditData_requires_production_wins:
  assumes "getAuditData n h = Some (Inr payload)"
    and "requireJson h (path_resolve (cwd h) ''package.json'') = Some packageJson"
    and "js_get packageJson ''dependencies'' = JObj production"
    and "distinct (map fst production)"
    and "(name, constraint) \<in> set production"
  shows "js_get (js_get payload ''requires'') name = constraint"
proof -
  from assms(1,2) have "payload = JObj
                 [(''name'', js_get packageJson ''name''),
                  (''version'', js_get packageJson ''version''),
                  (''requires'', JObj (object_assign []
                      [js_get packageJson ''devDependencies'', js_get packageJson ''dependencies''])),
                  (''dependencies'', the_tree),
                  (''install'', JArr []),
                  (''remove'', JArr []),
                  (''metadata'', metadata h)]" if "getAllDependencies n h = Some (Inr the_tree)" for the_tree
    using that by (auto simp: getAuditData_def Let_def split: if_splits)
  moreover from assms(1,2) obtain t where "getAllDependencies n h = Some (Inr t)"
    by (auto simp: getAuditData_def Let_def split: option.splits sum.splits if_splits)
  ultimately have "js_get payload ''requires'' = JObj (object_assign []
                      [js_get packageJson ''devDependencies'', js_get packageJson ''dependencies''])"
    by simp
  then show ?thesis
    using fold_set_prop_last[OF assms(4,5)] by (simp add: object_assign_def assms(3))
qed

theorem getAuditData_requires_production_wins_witness:
  "getAuditData 0 audit_host = Some (Inr (JObj
     [(''name'', JStr ''proj''), (''version'', JStr ''0.1.0''),
      (''requires'', JObj [(''lodash'', JStr ''^4.17.0''), (''mocha'', JStr ''^5.0.0'')]),
      (''dependencies'', JObj [(''lodash'', JObj [(''version'', JStr ''4.17.21'')])]),
      (''install'', JArr []), (''remove'', JArr []),
      (''metadata'', JObj [(''node_version'', JStr ''v10.0.0'')])]))
   \<and> js_get (JObj [(''lodash'', JStr ''^3.0.0''), (''mocha'', JStr ''^5.0.0'')]) ''lodash'' = JStr ''^3.0.0''
   \<and> js_get (js_get (JObj
     [(''name'', JStr ''proj''), (''version'', JStr ''0.1.0''),
      (''requires'', JObj [(''lodash'', JStr ''^4.17.0''), (''mocha'', JStr ''^5.0.0'')]),
      (''dependencies'', JObj [(''lodash'', JObj [(''version'', JStr ''4.17.21'')])]),
      (''install'', JArr []), (''remove'', JArr []),
      (''metadata'', JObj [(''node_version'', JStr ''v10.0.0'')])]) ''requires'') ''lodash''
     = JStr ''^4.17.0''"
proof -
  have req: "requireJson audit_host (path_resolve (cwd audit_host) ''package.json'') =
     Some (JObj [(''name'', JStr ''proj''), (''version'', JStr ''0.1.0''),
               (''dependencies'', JObj [(''lodash'', JStr ''^4.17.0'')]),
               (''devDependencies'', JObj [(''lodash'', JStr ''^3.0.0''), (''mocha'', JStr ''^5.0.0'')])])"
    by (simp add: requireJson_def audit_host_def audit_files_def path_resolve_def path_join_def)
  have deps: "js_get (JObj [(''name'', JStr ''proj''), (''version'', JStr ''0.1.0''),
               (''dependencies'', JObj [(''lodash'', JStr ''^4.17.0'')]),
               (''devDependencies'', JObj [(''lodash'', JStr ''^3.0.0''), (''mocha'', JStr ''^5.0.0'')])])
            ''dependencies'' = JObj [(''lodash'', JStr ''^4.17.0'')]"
    by simp
  have d: "distinct (map fst [(''lodash'', JStr ''^4.17.0'')])" by simp
  have m: "(''lodash'', JStr ''^4.17.0'') \<in> set [(''lodash'', JStr ''^4.17.0'')]" by simp
  from getAuditData_requires_production_wins[OF audit_run req deps d m] audit_run
  show ?thesis by simp
qed

end
